theory Spec2Isabelle
  imports Complex_Main
begin

section \<open>Data model of data.py\<close>

text \<open>
  Question items are Python dicts that are shared by reference: the batch handed to
  \<open>update_questions\<close>, the histories, the watch list and the returned change record
  all point to the same objects, and \<open>update_question_history\<close> writes the
  \<open>saved_at\<close> key into the object it is given. Objects therefore live in an explicit
  store, and every container holds references.

  Of the keys of an item only those read or written by data.py are fields of the record.
  \<open>view_total\<close> and \<open>answer_total\<close> are Python ints (scrapper.py converts them with
  \<open>int\<close>); \<open>potential_score\<close> is a Python float, taken here as a rational (the order of
  finite floats; NaN is outside the model). \<open>saved_at\<close> is absent on freshly scraped items.
\<close>

type_synonym ref = nat

record question =
  question_url :: string
  view_total :: int
  answer_total :: int
  potential_score :: rat
  saved_at :: "string option"

text \<open>The subclasses of \<open>Exception\<close> that the modelled code can raise or receive.\<close>

datatype py_error = IndexError | KeyError | OSError | TypeError | RuntimeError string

text \<open>
  A listener is an object with an \<open>update\<close> method. The method's outcome on the
  argument it receives is \<open>None\<close> when it returns and \<open>Some e\<close> when it raises \<open>e\<close>.
\<close>

record 'd listener =
  lid :: nat
  update :: "'d option \<Rightarrow> py_error option"

text \<open>What \<open>json.dump\<close> writes: the values of the objects, not the references.\<close>

datatype file_content =
    QuestionsJson "(string \<times> question list) list"
  | WatchedJson "(string \<times> question) list"

datatype 'd event =
    Saved string file_content
  | Notified nat "'d option"

text \<open>
  The state of a \<open>DataManager\<close> together with the part of the process it acts on:
  the object store, the files, the wall clock (\<open>clock\<close> read at position \<open>tick\<close>; every
  reading advances \<open>tick\<close>) and the trace of the externally visible events. Python dicts
  keep insertion order, so \<open>questions\<close> and \<open>watched_questions\<close> are association lists.
\<close>

record 'd data_manager =
  heap :: "ref \<Rightarrow> question"
  data :: "'d option"
  listeners :: "'d listener list"
  data_file :: string
  watched_file :: string
  max_history :: int
  questions :: "(string \<times> ref list) list"
  watched_questions :: "(string \<times> ref) list"
  disk :: "string \<Rightarrow> file_content option"
  writable :: "string \<Rightarrow> bool"
  clock :: "nat \<Rightarrow> string"
  tick :: nat
  trace :: "'d event list"

record changes =
  updated :: "(string \<times> int \<times> int) list"
  new :: "ref list"

subsection \<open>Python dicts as insertion-ordered association lists\<close>

text \<open>\<open>d[k] = v\<close>: an existing key keeps its position, a new key goes to the end.\<close>

fun dict_set :: "'k \<Rightarrow> 'v \<Rightarrow> ('k \<times> 'v) list \<Rightarrow> ('k \<times> 'v) list" where
  "dict_set k v [] = [(k, v)]"
| "dict_set k v ((k', v') # d) = (if k' = k then (k, v) # d else (k', v') # dict_set k v d)"

text \<open>\<open>del d[k]\<close> for a key that is present.\<close>

fun dict_del :: "'k \<Rightarrow> ('k \<times> 'v) list \<Rightarrow> ('k \<times> 'v) list" where
  "dict_del k [] = []"
| "dict_del k ((k', v') # d) = (if k' = k then d else (k', v') # dict_del k d)"

definition dict_ok :: "('k \<times> 'v) list \<Rightarrow> bool" where
  "dict_ok d = distinct (map fst d)"

text \<open>\<open>self.questions.get(k, [])\<close>.\<close>

definition history :: "'d data_manager \<Rightarrow> string \<Rightarrow> ref list" where
  "history s k = (case map_of (questions s) k of None \<Rightarrow> [] | Some h \<Rightarrow> h)"

subsection \<open>EventSource\<close>

text \<open>
  \<open>_notify_listeners\<close>: the loop calls each listener's \<open>update\<close> with \<open>self._data\<close>;
  there is no handler around the call, so the first exception leaves the loop.
\<close>

fun notify_loop :: "'d listener list \<Rightarrow> 'd data_manager \<Rightarrow> 'd data_manager \<times> py_error option" where
  "notify_loop [] s = (s, None)"
| "notify_loop (l # ls) s =
     (let s1 = s\<lparr>trace := trace s @ [Notified (lid l) (data s)]\<rparr>
      in case update l (data s) of
           Some e \<Rightarrow> (s1, Some e)
         | None \<Rightarrow> notify_loop ls s1)"

definition notify_listeners :: "'d data_manager \<Rightarrow> 'd data_manager \<times> py_error option" where
  "notify_listeners s = notify_loop (listeners s) s"

text \<open>
  \<open>register_listener\<close> appends a listener that is not yet registered and raises
  \<open>TypeError\<close> otherwise (the \<open>isinstance\<close> test is the type of the argument);
  \<open>unregister_listener\<close> removes a registered listener.
\<close>

definition register_listener :: "'d listener \<Rightarrow> 'd data_manager \<Rightarrow> 'd data_manager \<times> py_error option" where
  "register_listener l s =
     (if l \<notin> set (listeners s) then (s\<lparr>listeners := listeners s @ [l]\<rparr>, None)
      else (s, Some TypeError))"

definition unregister_listener :: "'d listener \<Rightarrow> 'd data_manager \<Rightarrow> 'd data_manager" where
  "unregister_listener l s =
     (if l \<in> set (listeners s) then s\<lparr>listeners := remove1 l (listeners s)\<rparr> else s)"

subsection \<open>DataManager\<close>

text \<open>
  \<open>save_data\<close>: opening the file for writing fails with \<open>OSError\<close> when the path is not
  writable; otherwise the file holds the dumped value.
\<close>

definition save_data :: "file_content \<Rightarrow> string \<Rightarrow> 'd data_manager \<Rightarrow> 'd data_manager \<times> py_error option" where
  "save_data content file_path s =
     (if writable s file_path
      then (s\<lparr>disk := (disk s)(file_path := Some content),
              trace := trace s @ [Saved file_path content]\<rparr>, None)
      else (s, Some OSError))"

definition questions_json :: "'d data_manager \<Rightarrow> file_content" where
  "questions_json s = QuestionsJson (map (\<lambda>(k, h). (k, map (heap s) h)) (questions s))"

definition watched_json :: "'d data_manager \<Rightarrow> file_content" where
  "watched_json s = WatchedJson (map (\<lambda>(k, r). (k, heap s r)) (watched_questions s))"

text \<open>
  The eviction loop \<open>while len(history) > self.max_history: history.pop(0)\<close>;
  \<open>pop(0)\<close> on the empty list raises \<open>IndexError\<close> (reached when \<open>max_history\<close> is negative).
\<close>

fun evict :: "int \<Rightarrow> ref list \<Rightarrow> py_error + ref list" where
  "evict m [] = (if int 0 > m then Inl IndexError else Inr [])"
| "evict m (x # xs) = (if int (length (x # xs)) > m then evict m xs else Inr (x # xs))"

definition update_question_history ::
    "string \<Rightarrow> ref \<Rightarrow> 'd data_manager \<Rightarrow> 'd data_manager \<times> py_error option" where
  "update_question_history url new_data s =
     (let qs = (if map_of (questions s) url = None then dict_set url [] (questions s)
                else questions s);
          h = (case map_of qs url of None \<Rightarrow> [] | Some h \<Rightarrow> h);
          now = clock s (tick s);
          hp = (heap s)(new_data := (heap s new_data)\<lparr>saved_at := Some now\<rparr>);
          s1 = s\<lparr>heap := hp, tick := Suc (tick s)\<rparr>
      in case evict (max_history s) (h @ [new_data]) of
           Inl e \<Rightarrow> (s1\<lparr>questions := dict_set url [] qs\<rparr>, Some e)
         | Inr h' \<Rightarrow> (s1\<lparr>questions := dict_set url h' qs\<rparr>, None))"

text \<open>The body of the \<open>for question in new_questions\<close> loop of \<open>update_questions\<close>.\<close>

definition record_change :: "'d data_manager \<Rightarrow> ref \<Rightarrow> changes \<Rightarrow> changes" where
  "record_change s q ch =
     (let url = question_url (heap s q)
      in case map_of (questions s) url of
           Some (h # hs) \<Rightarrow>
             (let old_data = heap s (last (h # hs));
                  view_increment = view_total (heap s q) - view_total old_data;
                  answer_increment = answer_total (heap s q) - answer_total old_data
              in if view_increment \<noteq> 0 \<or> answer_increment \<noteq> 0
                 then ch\<lparr>updated := updated ch @ [(url, view_increment, answer_increment)]\<rparr>
                 else ch)
         | _ \<Rightarrow> ch\<lparr>new := new ch @ [q]\<rparr>)"

fun update_loop ::
    "ref list \<Rightarrow> changes \<Rightarrow> 'd data_manager \<Rightarrow> 'd data_manager \<times> (py_error + changes)" where
  "update_loop [] ch s = (s, Inr ch)"
| "update_loop (q # rest) ch s =
     (let ch1 = record_change s q ch
      in case update_question_history (question_url (heap s q)) q s of
           (s1, Some e) \<Rightarrow> (s1, Inl e)
         | (s1, None) \<Rightarrow> update_loop rest ch1 s1)"

definition update_questions ::
    "ref list \<Rightarrow> 'd data_manager \<Rightarrow> 'd data_manager \<times> (py_error + changes)" where
  "update_questions new_questions s =
     (case update_loop new_questions \<lparr>updated = [], new = []\<rparr> s of
        (s1, Inl e) \<Rightarrow> (s1, Inl e)
      | (s1, Inr ch) \<Rightarrow>
          (case save_data (questions_json s1) (data_file s1) s1 of
             (s2, Some e) \<Rightarrow> (s2, Inl e)
           | (s2, None) \<Rightarrow>
               (case notify_listeners s2 of
                  (s3, Some e) \<Rightarrow> (s3, Inl e)
                | (s3, None) \<Rightarrow> (s3, Inr ch))))"

text \<open>
  \<open>sorted(items, key=..., reverse=True)\<close>: Python's sort is stable also with
  \<open>reverse=True\<close> (elements with equal keys keep their original order), so it is the
  stable ascending sort on the negated key.
\<close>

definition sorted_reverse :: "('a \<Rightarrow> rat) \<Rightarrow> 'a list \<Rightarrow> 'a list" where
  "sorted_reverse key xs = sort_key (\<lambda>x. - key x) xs"

text \<open>
  The first loop of \<open>get_question_list\<close>, over the keys of \<open>watched_questions\<close>; the state of
  the loop is the pair \<open>(question_list, question_id_list)\<close>.
\<close>

fun watched_loop ::
    "string list \<Rightarrow> 'd data_manager \<Rightarrow> ref list \<times> string list \<Rightarrow> ref list \<times> string list" where
  "watched_loop [] s acc = acc"
| "watched_loop (watch # ws) s (question_list, question_id_list) =
     (let question_items = history s watch
      in if length question_items > 0
         then watched_loop ws s (question_list @ [last question_items], question_id_list @ [watch])
         else watched_loop ws s (question_list, question_id_list))"

text \<open>
  The sort key is \<open>x[1][0]["potential_score"]\<close>: the score of the first element of the
  history. The keys of all items are computed by the sort, so an empty history raises
  \<open>IndexError\<close> there.
\<close>

definition raw_questions_list :: "'d data_manager \<Rightarrow> py_error + (string \<times> ref list) list" where
  "raw_questions_list s =
     (if list_ex (\<lambda>x. snd x = []) (questions s) then Inl IndexError
      else Inr (sorted_reverse (\<lambda>x. potential_score (heap s (hd (snd x)))) (questions s)))"

text \<open>The second loop of \<open>get_question_list\<close>, over the sorted items.\<close>

fun ranked_loop ::
    "(string \<times> ref list) list \<Rightarrow> ref list \<times> string list \<Rightarrow> ref list \<times> string list" where
  "ranked_loop [] acc = acc"
| "ranked_loop ((key, question_items) # raw) (question_list, question_id_list) =
     (if length question_items = 0 then ranked_loop raw (question_list, question_id_list)
      else if key \<notin> set question_id_list
      then ranked_loop raw (question_list @ [last question_items], question_id_list @ [key])
      else ranked_loop raw (question_list, question_id_list))"

text \<open>Both lists that \<open>get_question_list\<close> builds; the function returns the first.\<close>

definition question_lists :: "'d data_manager \<Rightarrow> py_error + ref list \<times> string list" where
  "question_lists s =
     (let acc = watched_loop (map fst (watched_questions s)) s ([], [])
      in case raw_questions_list s of
           Inl e \<Rightarrow> Inl e
         | Inr raw \<Rightarrow> Inr (ranked_loop raw acc))"

definition get_question_list :: "'d data_manager \<Rightarrow> py_error + ref list" where
  "get_question_list s = (case question_lists s of Inl e \<Rightarrow> Inl e | Inr acc \<Rightarrow> Inr (fst acc))"

text \<open>
  \<open>add_to_watched\<close> stores the reference to the last history element;
  \<open>self.questions[question_url][-1]\<close> raises \<open>IndexError\<close> on an empty history.
\<close>

definition add_to_watched :: "string \<Rightarrow> 'd data_manager \<Rightarrow> 'd data_manager \<times> py_error option" where
  "add_to_watched url s =
     (if map_of (watched_questions s) url = None \<and> map_of (questions s) url \<noteq> None
      then (case history s url of
              [] \<Rightarrow> (s, Some IndexError)
            | h # hs \<Rightarrow>
                (let s1 = s\<lparr>watched_questions := dict_set url (last (h # hs)) (watched_questions s)\<rparr>
                 in save_data (watched_json s1) (watched_file s1) s1))
      else (s, None))"

definition remove_from_watched :: "string \<Rightarrow> 'd data_manager \<Rightarrow> 'd data_manager \<times> py_error option" where
  "remove_from_watched url s =
     (if map_of (watched_questions s) url \<noteq> None
      then (let s1 = s\<lparr>watched_questions := dict_del url (watched_questions s)\<rparr>
            in save_data (watched_json s1) (watched_file s1) s1)
      else (s, None))"

section \<open>tracker.py\<close>

datatype log_line =
    Fetching string
  | DataUpdated string changes
  | ErrorOccurred py_error

record 'd data_tracker =
  manager :: "'d data_manager"
  stop_event :: bool
  refresh_event :: bool
  last_refresh_time :: string
  console :: "log_line list"

text \<open>\<open>time.strftime\<close> reads the same wall clock as \<open>datetime.now\<close>.\<close>

definition strftime :: "'d data_tracker \<Rightarrow> string \<times> 'd data_tracker" where
  "strftime t =
     (clock (manager t) (tick (manager t)),
      t\<lparr>manager := (manager t)\<lparr>tick := Suc (tick (manager t))\<rparr>\<rparr>)"

definition print :: "log_line \<Rightarrow> 'd data_tracker \<Rightarrow> 'd data_tracker" where
  "print l t = t\<lparr>console := console t @ [l]\<rparr>"

text \<open>
  \<open>perform_update\<close>. The first argument is the outcome of this call of the external
  \<open>self.fetch_data()\<close>: the list it returns or the exception it raises. The handler
  \<open>except Exception\<close> covers the whole body, so the function always returns.
\<close>

definition perform_update :: "py_error + ref list \<Rightarrow> 'd data_tracker \<Rightarrow> 'd data_tracker" where
  "perform_update fetch_data t =
     (let (now1, t1) = strftime t;
          t2 = print (Fetching now1) t1;
          (now2, t3) = strftime t2;
          t4 = t3\<lparr>last_refresh_time := now2\<rparr>
      in case fetch_data of
           Inl e \<Rightarrow> print (ErrorOccurred e) t4
         | Inr new_data \<Rightarrow>
             (case update_questions new_data (manager t4) of
                (m, Inl e) \<Rightarrow> print (ErrorOccurred e) (t4\<lparr>manager := m\<rparr>)
              | (m, Inr ch) \<Rightarrow>
                  (let (now3, t5) = strftime (t4\<lparr>manager := m\<rparr>)
                   in print (DataUpdated now3 ch) t5)))"

definition stop :: "'d data_tracker \<Rightarrow> 'd data_tracker" where
  "stop t = t\<lparr>stop_event := True\<rparr>"

definition refresh :: "py_error + ref list \<Rightarrow> 'd data_tracker \<Rightarrow> 'd data_tracker" where
  "refresh fetch_data t = (perform_update fetch_data t)\<lparr>refresh_event := True\<rparr>"

text \<open>
  The worker thread executes \<open>run\<close>; the other thread calls \<open>stop\<close> and \<open>refresh\<close>. The
  threads interleave at the statements of \<open>run\<close>, so the worker is a transition system over
  its program points: the loop test (line 50), the call of \<open>perform_update\<close> (line 51),
  \<open>self.stop_event.wait(self.interval)\<close> (line 54), the test and reset of
  \<open>refresh_event\<close> (lines 55-56), and the end of \<open>run\<close>. The wait returns when the flag is
  set or the interval has passed; time is not modelled, so the wait may return at any step.
  \<open>cycles\<close> counts the calls of \<open>perform_update\<close> made by the worker.
\<close>

datatype pc = LoopTest | Update | Wait | RefreshTest | Exited

record 'd system =
  tracker :: "'d data_tracker"
  worker :: pc
  cycles :: nat

datatype action =
    Worker "py_error + ref list"
  | CallStop
  | CallRefresh "py_error + ref list"

fun worker_step :: "py_error + ref list \<Rightarrow> 'd system \<Rightarrow> 'd system" where
  "worker_step fetch_data y =
     (case worker y of
        LoopTest \<Rightarrow> (if stop_event (tracker y) then y\<lparr>worker := Exited\<rparr> else y\<lparr>worker := Update\<rparr>)
      | Update \<Rightarrow> y\<lparr>tracker := perform_update fetch_data (tracker y), worker := Wait,
                    cycles := Suc (cycles y)\<rparr>
      | Wait \<Rightarrow> y\<lparr>worker := RefreshTest\<rparr>
      | RefreshTest \<Rightarrow>
          (if refresh_event (tracker y)
           then y\<lparr>tracker := (tracker y)\<lparr>refresh_event := False\<rparr>, worker := LoopTest\<rparr>
           else y\<lparr>worker := LoopTest\<rparr>)
      | Exited \<Rightarrow> y)"

fun step :: "action \<Rightarrow> 'd system \<Rightarrow> 'd system" where
  "step (Worker fetch_data) y = worker_step fetch_data y"
| "step CallStop y = y\<lparr>tracker := stop (tracker y)\<rparr>"
| "step (CallRefresh fetch_data) y = y\<lparr>tracker := refresh fetch_data (tracker y)\<rparr>"

fun exec :: "action list \<Rightarrow> 'd system \<Rightarrow> 'd system" where
  "exec [] y = y"
| "exec (a # as) y = exec as (step a y)"

section \<open>Notions used to state the properties\<close>

text \<open>The last \<open>m\<close> elements of a list: the retention window of a history.\<close>

definition window :: "int \<Rightarrow> 'a list \<Rightarrow> 'a list" where
  "window m h = drop (length h - nat m) h"

text \<open>The identity of an object: its \<open>question_url\<close> key.\<close>

definition url_of :: "'d data_manager \<Rightarrow> ref \<Rightarrow> string" where
  "url_of s q = question_url (heap s q)"

text \<open>
  The store after the loop of \<open>update_questions\<close> has processed the items \<open>qs\<close>, and
  the store that the \<open>i\<close>-th item of a batch meets.
\<close>

definition merged :: "ref list \<Rightarrow> 'd data_manager \<Rightarrow> 'd data_manager" where
  "merged qs s = fst (update_loop qs \<lparr>updated = [], new = []\<rparr> s)"

definition store_at :: "ref list \<Rightarrow> 'd data_manager \<Rightarrow> nat \<Rightarrow> 'd data_manager" where
  "store_at batch s i = merged (take i batch) s"

text \<open>
  What the specification asks one incoming item to contribute to \<open>ChangeRecord.new\<close> and to
  \<open>ChangeRecord.updated\<close>, in the store that the item meets.
\<close>

definition spec_new :: "'d data_manager \<Rightarrow> ref \<Rightarrow> ref list" where
  "spec_new s q = (if history s (url_of s q) = [] then [q] else [])"

definition spec_updated :: "'d data_manager \<Rightarrow> ref \<Rightarrow> (string \<times> int \<times> int) list" where
  "spec_updated s q =
     (if history s (url_of s q) = [] then []
      else (let prior = heap s (last (history s (url_of s q)));
                view_increment = view_total (heap s q) - view_total prior;
                answer_increment = answer_total (heap s q) - answer_total prior
            in if view_increment \<noteq> 0 \<or> answer_increment \<noteq> 0
               then [(url_of s q, view_increment, answer_increment)] else []))"

definition spec_changes :: "ref list \<Rightarrow> 'd data_manager \<Rightarrow> changes" where
  "spec_changes batch s =
     \<lparr>updated = concat (map (\<lambda>i. spec_updated (merged (take i batch) s) (batch ! i))
                          [0..<length batch]),
      new = concat (map (\<lambda>i. spec_new (merged (take i batch) s) (batch ! i))
                      [0..<length batch])\<rparr>"

text \<open>
  The listeners reached by a broadcast: those before the first one whose \<open>update\<close> raises,
  and that one; and the exception that the broadcast ends with.
\<close>

definition notified :: "'d option \<Rightarrow> 'd listener list \<Rightarrow> 'd listener list" where
  "notified d ls =
     takeWhile (\<lambda>l. update l d = None) ls @ take 1 (dropWhile (\<lambda>l. update l d = None) ls)"

definition first_error :: "'d option \<Rightarrow> 'd listener list \<Rightarrow> py_error option" where
  "first_error d ls =
     (case dropWhile (\<lambda>l. update l d = None) ls of [] \<Rightarrow> None | l # _ \<Rightarrow> update l d)"

text \<open>A sequence of merge cycles; a cycle that raises keeps the store it has reached.\<close>

fun merges :: "ref list list \<Rightarrow> 'd data_manager \<Rightarrow> 'd data_manager" where
  "merges [] s = s"
| "merges (b # bs) s = merges bs (fst (update_questions b s))"

section \<open>Concrete objects and states\<close>

definition item :: "string \<Rightarrow> int \<Rightarrow> int \<Rightarrow> rat \<Rightarrow> question" where
  "item u v a p =
     \<lparr>question_url = u, view_total = v, answer_total = a, potential_score = p, saved_at = None\<rparr>"

definition objects :: "ref \<Rightarrow> question" where
  "objects r =
     (if r = 0 then item ''a'' 100 5 7
      else if r = 1 then item ''a'' 150 5 7
      else if r = 2 then item ''a'' 150 5 1
      else if r = 3 then item ''b'' 20 1 5
      else if r = 4 then item ''a'' 180 6 8
      else item ''c'' 0 0 0)"

definition wall_clock :: "nat \<Rightarrow> string" where
  "wall_clock n = ''2024-01-06 12:00:0'' @ [char_of (48 + n)]"

text \<open>\<open>DataManager(max_history=m)\<close> when neither file exists: both dicts are loaded empty.\<close>

definition new_manager :: "(ref \<Rightarrow> question) \<Rightarrow> (nat \<Rightarrow> string) \<Rightarrow> int \<Rightarrow> 'd data_manager" where
  "new_manager hp clk m =
     \<lparr>heap = hp, data = None, listeners = [], data_file = ''questions.json'',
      watched_file = ''watched_questions.json'', max_history = m, questions = [],
      watched_questions = [], disk = (\<lambda>_. None), writable = (\<lambda>_. True), clock = clk,
      tick = 0, trace = []\<rparr>"

text \<open>
  A listener that keeps the \<open>update\<close> of the base class \<open>DataListener\<close>, which raises
  \<open>NotImplementedError\<close>, and a listener whose \<open>update\<close> returns.
\<close>

definition base_listener :: "nat \<Rightarrow> 'd listener" where
  "base_listener n = \<lparr>lid = n, update = (\<lambda>_. Some (RuntimeError ''NotImplementedError''))\<rparr>"

definition quiet_listener :: "nat \<Rightarrow> 'd listener" where
  "quiet_listener n = \<lparr>lid = n, update = (\<lambda>_. None)\<rparr>"

definition two_listeners :: "unit data_manager" where
  "two_listeners =
     fst (register_listener (quiet_listener 1)
       (fst (register_listener (base_listener 0) (new_manager objects wall_clock 3))))"


text \<open>The store after one merge cycle whose batch holds the identity \<open>a\<close> twice.\<close>

definition stamped_twice :: "unit data_manager" where
  "stamped_twice = fst (update_questions [0, 1] (new_manager objects wall_clock 3))"

text \<open>
  \<open>DataTracker(fetch_data, data_manager, interval)\<close>, and the system once \<open>start()\<close> has
  launched the worker, which stands at its first loop test.
\<close>

definition new_tracker :: "'d data_manager \<Rightarrow> 'd data_tracker" where
  "new_tracker m =
     \<lparr>manager = m, stop_event = False, refresh_event = False, last_refresh_time = [],
      console = []\<rparr>"

definition started :: "'d data_manager \<Rightarrow> 'd system" where
  "started m = \<lparr>tracker = new_tracker m, worker = LoopTest, cycles = 0\<rparr>"

text \<open>The worker of a started system after its first loop test.\<close>

definition at_update :: "unit system" where
  "at_update = step (Worker (Inr [])) (started (new_manager objects wall_clock 3))"

text \<open>
  The worker has passed its loop test; the other thread has then called \<open>stop()\<close>, which has
  returned.
\<close>

definition stopped_in_flight :: "unit system" where
  "stopped_in_flight =
     exec [Worker (Inr []), CallStop] (started (new_manager objects wall_clock 3))"

text \<open>
  Actions of the worker thread, and the number of worker steps from a program point to the
  end of \<open>run\<close> once the stop flag is set.
\<close>

definition by_worker :: "action \<Rightarrow> bool" where
  "by_worker a = (case a of Worker _ \<Rightarrow> True | _ \<Rightarrow> False)"

fun steps_to_exit :: "pc \<Rightarrow> nat" where
  "steps_to_exit Update = 4"
| "steps_to_exit Wait = 3"
| "steps_to_exit RefreshTest = 2"
| "steps_to_exit LoopTest = 1"
| "steps_to_exit Exited = 0"

text \<open>
  \<open>DataManager()\<close> when the watched file holds the identity \<open>a\<close> and the items file does not
  exist: the two files are loaded independently of each other.
\<close>

definition orphan_watch :: "unit data_manager" where
  "orphan_watch = (new_manager objects wall_clock 3)\<lparr>watched_questions := [(''a'', 0)]\<rparr>"

text \<open>The identity \<open>a\<close> put on the watch list of a store that knows it.\<close>

definition watching :: "unit data_manager" where
  "watching = fst (add_to_watched ''a'' stamped_twice)"

text \<open>
  The keys that have a non-empty history in the store, and the keys of the store in the
  order of the sort in \<open>get_question_list\<close>.
\<close>

definition with_history :: "'d data_manager \<Rightarrow> string list \<Rightarrow> string list" where
  "with_history s ws = filter (\<lambda>w. history s w \<noteq> []) ws"

definition ranked_keys :: "'d data_manager \<Rightarrow> string list" where
  "ranked_keys s =
     map fst (sorted_reverse (\<lambda>x. potential_score (heap s (hd (snd x)))) (questions s))"

text \<open>
  A store in which the identity \<open>a\<close> has two snapshots, the older with score 7 and the
  latest with score 1, and the identity \<open>b\<close> has one snapshot with score 5; and the same
  store with \<open>b\<close> on the watch list.
\<close>

definition ranked_store :: "unit data_manager" where
  "ranked_store = fst (update_questions [0, 2, 3] (new_manager objects wall_clock 3))"

definition watching_b :: "unit data_manager" where
  "watching_b = fst (add_to_watched ''b'' ranked_store)"

text \<open>
  A new manager with one registered listener whose \<open>update\<close> returns, and a new manager in a
  directory where no file can be written.
\<close>

definition listening :: "unit data_manager" where
  "listening = fst (register_listener (quiet_listener 1) (new_manager objects wall_clock 2))"

definition read_only :: "unit data_manager" where
  "read_only = (new_manager objects wall_clock 2)\<lparr>writable := (\<lambda>_. False)\<rparr>"

section \<open>Properties\<close>

subsection \<open>Dictionaries and the retention window\<close>

lemma map_of_dict_set: "map_of (dict_set k v d) = (map_of d)(k \<mapsto> v)"
  by (induction d) (auto simp: fun_eq_iff)

lemma keys_dict_set:
  "map fst (dict_set k v d) = (if k \<in> fst ` set d then map fst d else map fst d @ [k])"
  by (induction d) (auto simp: rev_image_eqI)

lemma dict_set_absent: "map_of d k = None \<Longrightarrow> dict_set k v d = d @ [(k, v)]"
  by (induction d) (auto split: if_splits)

lemma dict_set_twice: "dict_set k v (dict_set k w d) = dict_set k v d"
  by (induction d) auto

lemma dict_ok_dict_set: "dict_ok d \<Longrightarrow> dict_ok (dict_set k v d)"
  by (simp add: dict_ok_def keys_dict_set)

lemma keys_dict_del: "map fst (dict_del k d) = remove1 k (map fst d)"
  by (induction d) auto

lemma map_of_dict_del: "dict_ok d \<Longrightarrow> map_of (dict_del k d) = (map_of d)(k := None)"
  unfolding dict_ok_def
proof (induction d)
  case Nil
  then show ?case by simp
next
  case (Cons p d)
  obtain k' v' where p: "p = (k', v')" by (cases p)
  show ?case
  proof (cases "k' = k")
    case True
    then have "map_of d k = None" using Cons.prems p by (simp add: map_of_eq_None_iff)
    then show ?thesis using True p by (auto simp: fun_eq_iff)
  next
    case False
    then show ?thesis using Cons p by (auto simp: fun_eq_iff)
  qed
qed

lemma dict_ok_dict_del: "dict_ok d \<Longrightarrow> dict_ok (dict_del k d)"
  by (simp add: dict_ok_def keys_dict_del)

lemma evict_window: "0 \<le> m \<Longrightarrow> evict m h = Inr (window m h)"
proof (induction h)
  case Nil
  then show ?case by (simp add: window_def)
next
  case (Cons x xs)
  show ?case
  proof (cases "int (length (x # xs)) > m")
    case True
    then have "length (x # xs) - nat m = Suc (length xs - nat m)" using Cons.prems by auto
    then show ?thesis using True Cons by (simp add: window_def)
  next
    case False
    then have "length (x # xs) - nat m = 0" by auto
    then show ?thesis using False unfolding window_def by simp
  qed
qed

lemma window_window: "window m (window m a @ b) = window m (a @ b)"
proof (cases "length a \<le> nat m")
  case True
  then show ?thesis unfolding window_def by simp
next
  case False
  then have "length a + length b - (length a - nat m + nat m) + (length a - nat m)
      = length a + length b - nat m" by simp
  then show ?thesis unfolding window_def by simp
qed

lemma window_length: "0 \<le> m \<Longrightarrow> int (length (window m h)) \<le> m"
  unfolding window_def by auto

lemma window_last: "1 \<le> m \<Longrightarrow> h \<noteq> [] \<Longrightarrow> window m h \<noteq> [] \<and> last (window m h) = last h"
proof -
  assume m: "1 \<le> m" and h: "h \<noteq> []"
  then have "length h - nat m < length h" by (cases h) auto
  then show ?thesis unfolding window_def by (simp)
qed

subsection \<open>The merge loop\<close>

lemma uqh_result:
  assumes "0 \<le> max_history s"
  shows "update_question_history u q s =
     (s\<lparr>heap := (heap s)(q := (heap s q)\<lparr>saved_at := Some (clock s (tick s))\<rparr>),
        tick := Suc (tick s),
        questions := dict_set u (window (max_history s) (history s u @ [q])) (questions s)\<rparr>, None)"
  using assms
  by (auto simp: update_question_history_def Let_def history_def evict_window map_of_dict_set dict_set_twice
      split: option.splits)

lemma update_loop_append:
  "update_loop (xs @ ys) ch s =
     (case update_loop xs ch s of
        (s1, Inl e) \<Rightarrow> (s1, Inl e)
      | (s1, Inr ch1) \<Rightarrow> update_loop ys ch1 s1)"
  by (induction xs arbitrary: ch s) (auto simp: Let_def split: prod.splits option.splits sum.splits)

lemma update_loop_state: "fst (update_loop qs ch s) = fst (update_loop qs ch' s)"
  by (induction qs arbitrary: ch ch' s) (auto simp: Let_def split: prod.splits option.splits)

lemma uqh_max: "max_history (fst (update_question_history u q s)) = max_history s"
  by (auto simp: update_question_history_def Let_def split: sum.splits)

lemma update_loop_ok:
  "0 \<le> max_history s \<Longrightarrow> \<exists>ch'. snd (update_loop qs ch s) = Inr ch'"
proof (induction qs arbitrary: ch s)
  case Nil
  then show ?case by simp
next
  case (Cons q qs)
  then show ?case by (simp add: uqh_result Let_def)
qed

lemma update_loop_single:
  "fst (update_loop [q] ch s) = fst (update_question_history (question_url (heap s q)) q s)"
  by (simp add: Let_def split: prod.splits option.splits)

lemma update_loop_max: "max_history (fst (update_loop qs ch s)) = max_history s"
proof (induction qs arbitrary: ch s)
  case Nil
  then show ?case by simp
next
  case (Cons q qs)
  show ?case
  proof (cases "update_question_history (question_url (heap s q)) q s")
    case (Pair s1 r)
    then have "max_history s1 = max_history s"
      using uqh_max[of "question_url (heap s q)" q s] by simp
    then show ?thesis using Pair Cons[of _ s1]
      by (cases r) (simp_all add: Let_def)
  qed
qed

lemma merged_max: "max_history (merged qs s) = max_history s"
  by (simp add: merged_def update_loop_max)

lemma merged_snoc:
  assumes m: "0 \<le> max_history s"
  shows "merged (qs @ [q]) s =
    fst (update_question_history (url_of (merged qs s) q) q (merged qs s))"
proof -
  obtain ch' where "snd (update_loop qs \<lparr>updated = [], new = []\<rparr> s) = Inr ch'"
    using update_loop_ok[OF m] by blast
  then have eq: "update_loop qs \<lparr>updated = [], new = []\<rparr> s = (merged qs s, Inr ch')"
    by (simp add: merged_def prod_eq_iff)
  have "merged (qs @ [q]) s = fst (update_loop [q] ch' (merged qs s))"
    unfolding merged_def[of "qs @ [q]"] update_loop_append eq by simp
  then show ?thesis by (simp only: update_loop_single url_of_def)
qed

lemma record_change_spec:
  "record_change s q ch =
     ch\<lparr>updated := updated ch @ spec_updated s q, new := new ch @ spec_new s q\<rparr>"
  by (auto simp: record_change_def spec_new_def spec_updated_def history_def url_of_def Let_def
      split: option.splits list.splits)

lemma update_loop_single_ok:
  "0 \<le> max_history s \<Longrightarrow> 
   update_loop [q] ch s = (fst (update_question_history (url_of s q) q s), Inr (record_change s q ch))"
  by (simp add: uqh_result Let_def url_of_def)

lemma upt_map_snoc:
  "map (\<lambda>i. f (take i (xs @ [x])) ((xs @ [x]) ! i)) [0..<length xs] =
   map (\<lambda>i. f (take i xs) (xs ! i)) [0..<length xs]"
  by (rule map_cong) (simp_all add: nth_append)

lemma update_loop_changes:
  assumes m: "0 \<le> max_history s"
  shows "update_loop qs ch s =
    (merged qs s,
     Inr (ch\<lparr>updated := updated ch @
                concat (map (\<lambda>i. spec_updated (merged (take i qs) s) (qs ! i)) [0..<length qs]),
              new := new ch @
                concat (map (\<lambda>i. spec_new (merged (take i qs) s) (qs ! i)) [0..<length qs])\<rparr>))"
proof (induction qs rule: rev_induct)
  case Nil
  then show ?case by (simp add: merged_def)
next
  case (snoc x xs)
  have m1: "0 \<le> max_history (merged xs s)" using m by (simp add: merged_max)
  have u: "map (\<lambda>i. spec_updated (merged (take i (xs @ [x])) s) ((xs @ [x]) ! i)) [0..<length xs]
      = map (\<lambda>i. spec_updated (merged (take i xs) s) (xs ! i)) [0..<length xs]"
    using upt_map_snoc[of "\<lambda>ys y. spec_updated (merged ys s) y" xs x] by simp
  have n: "map (\<lambda>i. spec_new (merged (take i (xs @ [x])) s) ((xs @ [x]) ! i)) [0..<length xs]
      = map (\<lambda>i. spec_new (merged (take i xs) s) (xs ! i)) [0..<length xs]"
    using upt_map_snoc[of "\<lambda>ys y. spec_new (merged ys s) y" xs x] by simp
  have idx: "[0..<length (xs @ [x])] = [0..<length xs] @ [length xs]" by simp
  have U: "concat (map (\<lambda>i. spec_updated (merged (take i (xs @ [x])) s) ((xs @ [x]) ! i))
              [0..<length (xs @ [x])])
      = concat (map (\<lambda>i. spec_updated (merged (take i xs) s) (xs ! i)) [0..<length xs])
        @ spec_updated (merged xs s) x"
    unfolding idx map_append concat_append u by simp
  have N: "concat (map (\<lambda>i. spec_new (merged (take i (xs @ [x])) s) ((xs @ [x]) ! i))
              [0..<length (xs @ [x])])
      = concat (map (\<lambda>i. spec_new (merged (take i xs) s) (xs ! i)) [0..<length xs])
        @ spec_new (merged xs s) x"
    unfolding idx map_append concat_append n by simp
  have "update_loop (xs @ [x]) ch s =
      update_loop [x]
        (ch\<lparr>updated := updated ch @
                concat (map (\<lambda>i. spec_updated (merged (take i xs) s) (xs ! i)) [0..<length xs]),
            new := new ch @
                concat (map (\<lambda>i. spec_new (merged (take i xs) s) (xs ! i)) [0..<length xs])\<rparr>)
        (merged xs s)"
    unfolding update_loop_append snoc.IH by (simp only: prod.case sum.case)
  then show ?case
    unfolding update_loop_single_ok[OF m1] merged_snoc[OF m] record_change_spec U N
    by simp
qed

subsection \<open>Broadcast and the result of a merge cycle\<close>

lemma notify_loop_result:
  "notify_loop ls s =
     (s\<lparr>trace := trace s @ map (\<lambda>l. Notified (lid l) (data s)) (notified (data s) ls)\<rparr>,
      first_error (data s) ls)"
proof (induction ls arbitrary: s)
  case Nil
  then show ?case by (simp add: notified_def first_error_def)
next
  case (Cons l ls)
  show ?case
  proof (cases "update l (data s)")
    case None
    then show ?thesis by (simp add: Cons notified_def first_error_def cong: list.case_cong)
  next
    case (Some e)
    then show ?thesis by (simp add: notified_def first_error_def)
  qed
qed

lemma uqh_frame:
  "\<exists>hp tk qs. fst (update_question_history u q s) = s\<lparr>heap := hp, tick := tk, questions := qs\<rparr>"
  unfolding update_question_history_def Let_def
  by (cases "evict (max_history s)
       ((case map_of (if map_of (questions s) u = None then dict_set u [] (questions s)
          else questions s) u of None \<Rightarrow> [] | Some h \<Rightarrow> h) @ [q])") auto

lemma update_loop_frame:
  "\<exists>hp tk qs. fst (update_loop xs ch s) = s\<lparr>heap := hp, tick := tk, questions := qs\<rparr>"
proof (induction xs arbitrary: ch s)
  case Nil
  show ?case
    by (rule exI[of _ "heap s"], rule exI[of _ "tick s"], rule exI[of _ "questions s"]) simp
next
  case (Cons q xs)
  obtain hp tk qs where 1: "fst (update_question_history (question_url (heap s q)) q s)
      = s\<lparr>heap := hp, tick := tk, questions := qs\<rparr>"
    using uqh_frame by blast
  show ?case
  proof (cases "update_question_history (question_url (heap s q)) q s")
    case (Pair s1 r)
    with 1 have s1: "s1 = s\<lparr>heap := hp, tick := tk, questions := qs\<rparr>" by simp
    show ?thesis
    proof (cases r)
      case None
      obtain hp' tk' qs' where "fst (update_loop xs (record_change s q ch) s1)
          = s1\<lparr>heap := hp', tick := tk', questions := qs'\<rparr>"
        using Cons by blast
      then have "fst (update_loop (q # xs) ch s) = s\<lparr>heap := hp', tick := tk', questions := qs'\<rparr>"
        using Pair None s1 by (simp add: Let_def)
      then show ?thesis by blast
    next
      case (Some e)
      then have "fst (update_loop (q # xs) ch s) = s\<lparr>heap := hp, tick := tk, questions := qs\<rparr>"
        using Pair s1 by (simp add: Let_def)
      then show ?thesis by blast
    qed
  qed
qed

lemma merged_frame:
  "merged xs s = s\<lparr>heap := heap (merged xs s), tick := tick (merged xs s),
                    questions := questions (merged xs s)\<rparr>"
proof -
  obtain hp tk qs where e: "merged xs s = s\<lparr>heap := hp, tick := tk, questions := qs\<rparr>"
    using update_loop_frame unfolding merged_def by blast
  have "heap (merged xs s) = hp" "tick (merged xs s) = tk" "questions (merged xs s) = qs"
    unfolding e by simp_all
  then show ?thesis using e by simp
qed

lemma merged_fields:
  "data (merged xs s) = data s" "listeners (merged xs s) = listeners s"
  "data_file (merged xs s) = data_file s" "watched_file (merged xs s) = watched_file s"
  "watched_questions (merged xs s) = watched_questions s" "disk (merged xs s) = disk s"
  "writable (merged xs s) = writable s" "clock (merged xs s) = clock s"
  "trace (merged xs s) = trace s"
  by (subst merged_frame, simp)+

lemma update_loop_spec:
  "0 \<le> max_history s \<Longrightarrow>
   update_loop batch \<lparr>updated = [], new = []\<rparr> s = (merged batch s, Inr (spec_changes batch s))"
  by (simp add: update_loop_changes spec_changes_def)

lemma update_questions_result:
  assumes m: "0 \<le> max_history s"
  shows "update_questions batch s =
    (if writable s (data_file s)
     then ((merged batch s)
             \<lparr>disk := (disk s)(data_file s := Some (questions_json (merged batch s))),
              trace := trace s @ Saved (data_file s) (questions_json (merged batch s)) #
                 map (\<lambda>l. Notified (lid l) (data s)) (notified (data s) (listeners s))\<rparr>,
           case first_error (data s) (listeners s) of
             Some e \<Rightarrow> Inl e | None \<Rightarrow> Inr (spec_changes batch s))
     else (merged batch s, Inl OSError))"
  unfolding update_questions_def update_loop_spec[OF m]
  by (simp add: save_data_def notify_listeners_def notify_loop_result merged_fields
      split: option.splits)

lemma all_ok_first_error:
  "(\<forall>l\<in>set ls. update l d = None) \<Longrightarrow> first_error d ls = None \<and> notified d ls = ls"
  by (induction ls) (auto simp: first_error_def notified_def)

subsection \<open>Histories after merges\<close>

lemma uqh_history:
  "0 \<le> max_history s \<Longrightarrow>
   history (fst (update_question_history u q s)) k =
     (if k = u then window (max_history s) (history s u @ [q]) else history s k)"
  by (simp add: uqh_result history_def map_of_dict_set)

lemma uqh_heap:
  "0 \<le> max_history s \<Longrightarrow>
   heap (fst (update_question_history u q s)) =
     (heap s)(q := (heap s q)\<lparr>saved_at := Some (clock s (tick s))\<rparr>)"
  by (simp add: uqh_result)

lemma uqh_tick:
  "0 \<le> max_history s \<Longrightarrow> tick (fst (update_question_history u q s)) = Suc (tick s)"
  by (simp add: uqh_result)

lemma uqh_keys:
  "0 \<le> max_history s \<Longrightarrow>
   fst ` set (questions (fst (update_question_history u q s))) = insert u (fst ` set (questions s))"
proof -
  assume "0 \<le> max_history s"
  then have "set (map fst (questions (fst (update_question_history u q s)))) =
      insert u (set (map fst (questions s)))"
    by (simp add: uqh_result keys_dict_set) auto
  then show ?thesis by simp
qed

lemma merged_static:
  assumes m: "0 \<le> max_history s"
  shows "question_url (heap (merged xs s) r) = question_url (heap s r)
       \<and> view_total (heap (merged xs s) r) = view_total (heap s r)
       \<and> answer_total (heap (merged xs s) r) = answer_total (heap s r)
       \<and> potential_score (heap (merged xs s) r) = potential_score (heap s r)
       \<and> tick (merged xs s) = tick s + length xs"
proof (induction xs arbitrary: r rule: rev_induct)
  case Nil
  then show ?case by (simp add: merged_def)
next
  case (snoc x xs)
  have m1: "0 \<le> max_history (merged xs s)" using m by (simp add: merged_max)
  show ?case
    unfolding merged_snoc[OF m] by (simp add: uqh_heap[OF m1] uqh_tick[OF m1] snoc)
qed

lemma merged_url: "0 \<le> max_history s \<Longrightarrow> url_of (merged xs s) r = url_of s r"
  by (simp add: url_of_def merged_static)

lemma merged_history:
  assumes m: "0 \<le> max_history s"
  shows "history (merged xs s) k =
     (if filter (\<lambda>q. url_of s q = k) xs = [] then history s k
      else window (max_history s) (history s k @ filter (\<lambda>q. url_of s q = k) xs))"
proof (induction xs arbitrary: k rule: rev_induct)
  case Nil
  then show ?case by (simp add: merged_def)
next
  case (snoc x xs)
  have m1: "0 \<le> max_history (merged xs s)" using m by (simp add: merged_max)
  show ?case
    unfolding merged_snoc[OF m] uqh_history[OF m1] merged_url[OF m] merged_max
    by (simp add: snoc window_window)
qed

lemma merged_keys:
  assumes m: "0 \<le> max_history s"
  shows "fst ` set (questions (merged xs s)) = fst ` set (questions s) \<union> url_of s ` set xs"
proof (induction xs rule: rev_induct)
  case Nil
  then show ?case by (simp add: merged_def)
next
  case (snoc x xs)
  have m1: "0 \<le> max_history (merged xs s)" using m by (simp add: merged_max)
  show ?case
    unfolding merged_snoc[OF m] uqh_keys[OF m1] merged_url[OF m] snoc by auto
qed

lemma uq_store:
  assumes m: "0 \<le> max_history s"
  shows "questions (fst (update_questions b s)) = questions (merged b s)"
    "heap (fst (update_questions b s)) = heap (merged b s)"
    "max_history (fst (update_questions b s)) = max_history s"
    "tick (fst (update_questions b s)) = tick (merged b s)"
    "clock (fst (update_questions b s)) = clock s"
    "watched_questions (fst (update_questions b s)) = watched_questions s"
  unfolding update_questions_result[OF m] by (simp_all add: merged_max merged_fields)

lemma uq_history:
  "0 \<le> max_history s \<Longrightarrow> history (fst (update_questions b s)) k = history (merged b s) k"
  by (simp add: history_def uq_store)

lemma uq_url:
  "0 \<le> max_history s \<Longrightarrow> url_of (fst (update_questions b s)) r = url_of s r"
  by (simp add: url_of_def uq_store merged_static)

lemma merges_max: "0 \<le> max_history s \<Longrightarrow> max_history (merges bs s) = max_history s"
  by (induction bs arbitrary: s) (simp_all add: uq_store)

lemma merges_url: "0 \<le> max_history s \<Longrightarrow> url_of (merges bs s) r = url_of s r"
  by (induction bs arbitrary: s) (simp_all add: uq_store uq_url)

lemma merges_history:
  assumes m: "0 \<le> max_history s"
  shows "history (merges bs s) k =
     (if filter (\<lambda>q. url_of s q = k) (concat bs) = [] then history s k
      else window (max_history s) (history s k @ filter (\<lambda>q. url_of s q = k) (concat bs)))"
  using m
proof (induction bs arbitrary: s)
  case Nil
  then show ?case by simp
next
  case (Cons b bs)
  let ?s1 = "fst (update_questions b s)"
  have m1: "0 \<le> max_history ?s1" using Cons.prems by (simp add: uq_store)
  have u: "\<And>q. url_of ?s1 q = url_of s q" using Cons.prems by (simp add: uq_url)
  show ?case
    unfolding merges.simps Cons.IH[OF m1] u uq_history[OF Cons.prems]
      merged_history[OF Cons.prems] uq_store(3)[OF Cons.prems]
    by (simp add: window_window)
qed

lemma merges_keys:
  assumes m: "0 \<le> max_history s"
  shows "fst ` set (questions (merges bs s)) = fst ` set (questions s) \<union> url_of s ` set (concat bs)"
  using m
proof (induction bs arbitrary: s)
  case Nil
  then show ?case by simp
next
  case (Cons b bs)
  let ?s1 = "fst (update_questions b s)"
  have m1: "0 \<le> max_history ?s1" using Cons.prems by (simp add: uq_store)
  have u: "\<And>q. url_of ?s1 q = url_of s q" using Cons.prems by (simp add: uq_url)
  show ?case
    unfolding merges.simps Cons.IH[OF m1] u uq_store(1)[OF Cons.prems] merged_keys[OF Cons.prems]
    by auto
qed

text \<open>
  Claim C3. Starting from an empty store with \<open>max_history \<ge> 1\<close>, after any sequence of
  merge cycles the history of every identity \<open>k\<close> is the window of the last \<open>max_history\<close>
  objects with that identity among all objects merged, in the order of their insertion; a key
  is in the store exactly when its history is not empty, and then the length of the history is
  between \<open>1\<close> and \<open>max_history\<close>.
\<close>

theorem bounded_history:
  assumes "questions s = []" and "1 \<le> max_history s"
  shows "history (merges bs s) k =
           window (max_history s) (filter (\<lambda>q. url_of s q = k) (concat bs))
       \<and> (k \<in> fst ` set (questions (merges bs s)) \<longleftrightarrow> history (merges bs s) k \<noteq> [])
       \<and> (k \<in> fst ` set (questions (merges bs s)) \<longrightarrow>
            1 \<le> length (history (merges bs s) k)
            \<and> int (length (history (merges bs s) k)) \<le> max_history s)"
proof -
  let ?ins = "filter (\<lambda>q. url_of s q = k) (concat bs)"
  have m: "0 \<le> max_history s" using assms(2) by simp
  have h0: "history s k = []" using assms(1) by (simp add: history_def)
  have h: "history (merges bs s) k = window (max_history s) ?ins"
    unfolding merges_history[OF m] h0 by (simp add: window_def)
  have keys: "k \<in> fst ` set (questions (merges bs s)) \<longleftrightarrow> ?ins \<noteq> []"
    unfolding merges_keys[OF m] assms(1) by (auto simp: filter_empty_conv)
  have ne: "?ins \<noteq> [] \<longleftrightarrow> window (max_history s) ?ins \<noteq> []"
    using window_last[OF assms(2), of ?ins] by (auto simp: window_def)
  have len: "int (length (window (max_history s) ?ins)) \<le> max_history s"
    by (rule window_length[OF m])
  show ?thesis
    unfolding h keys using ne len by (auto simp: Suc_le_eq)
qed

theorem bounded_history_witness:
  "questions (new_manager objects wall_clock 2 :: unit data_manager) = []
   \<and> 1 \<le> max_history (new_manager objects wall_clock 2 :: unit data_manager)
   \<and> history (merges [[0], [1], [2, 3]] (new_manager objects wall_clock 2 :: unit data_manager)) ''a''
       = [1, 2]
   \<and> ''a'' \<in> fst ` set (questions (merges [[0], [1], [2, 3]]
         (new_manager objects wall_clock 2 :: unit data_manager)))"
  using bounded_history[of "new_manager objects wall_clock 2 :: unit data_manager" "[[0], [1], [2, 3]]" "''a''"]
  by (simp add: new_manager_def url_of_def objects_def item_def window_def)

subsection \<open>The change record of a merge cycle\<close>

lemma store_at_step:
  assumes m: "0 \<le> max_history s" and i: "i < length batch"
  shows "history (store_at batch s (Suc i)) (url_of s (batch ! i)) =
           window (max_history s) (history (store_at batch s i) (url_of s (batch ! i)) @ [batch ! i])"
    and "heap (store_at batch s (Suc i)) (batch ! i) =
           (heap (store_at batch s i) (batch ! i))\<lparr>saved_at := Some (clock s (tick s + i))\<rparr>"
proof -
  let ?si = "merged (take i batch) s"
  have m1: "0 \<le> max_history ?si" using m by (simp add: merged_max)
  have t: "take (Suc i) batch = take i batch @ [batch ! i]"
    using i by (simp add: take_Suc_conv_app_nth)
  have tk: "tick ?si = tick s + i" using i by (simp add: merged_static[OF m])
  show "history (store_at batch s (Suc i)) (url_of s (batch ! i)) =
           window (max_history s) (history (store_at batch s i) (url_of s (batch ! i)) @ [batch ! i])"
    unfolding store_at_def t merged_snoc[OF m] uqh_history[OF m1] merged_url[OF m] merged_max
    by simp
  show "heap (store_at batch s (Suc i)) (batch ! i) =
           (heap (store_at batch s i) (batch ! i))\<lparr>saved_at := Some (clock s (tick s + i))\<rparr>"
    unfolding store_at_def t merged_snoc[OF m] uqh_heap[OF m1] tk merged_fields
    by simp
qed

lemma store_at_own_history:
  assumes m: "0 \<le> max_history s" and d: "distinct (map (url_of s) batch)"
    and i: "i < length batch"
  shows "history (store_at batch s i) (url_of s (batch ! i)) = history s (url_of s (batch ! i))"
proof -
  have "filter (\<lambda>q. url_of s q = url_of s (batch ! i)) (take i batch) = []"
  proof (rule ccontr)
    assume "filter (\<lambda>q. url_of s q = url_of s (batch ! i)) (take i batch) \<noteq> []"
    then obtain q where q: "q \<in> set (take i batch)" "url_of s q = url_of s (batch ! i)"
      by (auto simp: filter_empty_conv)
    then obtain j where j: "j < i" "q = batch ! j"
      using i by (auto simp: in_set_conv_nth)
    have "map (url_of s) batch ! j = map (url_of s) batch ! i" using q(2) j i by simp
    moreover have "j < length (map (url_of s) batch)" "i < length (map (url_of s) batch)"
      using i j(1) by simp_all
    ultimately have "j = i" using d nth_eq_iff_index_eq by blast
    then show False using j(1) by simp
  qed
  then show ?thesis unfolding store_at_def merged_history[OF m] by simp
qed

lemma spec_entries_distinct:
  assumes m: "0 \<le> max_history s" and d: "distinct (map (url_of s) batch)"
    and i: "i < length batch"
  shows "spec_new (store_at batch s i) (batch ! i) = spec_new s (batch ! i)"
    and "spec_updated (store_at batch s i) (batch ! i) = spec_updated s (batch ! i)"
proof -
  have u: "url_of (store_at batch s i) (batch ! i) = url_of s (batch ! i)"
    by (simp add: store_at_def merged_url[OF m])
  have h: "history (store_at batch s i) (url_of s (batch ! i)) = history s (url_of s (batch ! i))"
    by (rule store_at_own_history[OF m d i])
  have st: "\<And>r. view_total (heap (store_at batch s i) r) = view_total (heap s r)"
    "\<And>r. answer_total (heap (store_at batch s i) r) = answer_total (heap s r)"
    by (simp_all add: store_at_def merged_static[OF m])
  show "spec_new (store_at batch s i) (batch ! i) = spec_new s (batch ! i)"
    by (simp add: spec_new_def u h)
  show "spec_updated (store_at batch s i) (batch ! i) = spec_updated s (batch ! i)"
    by (simp add: spec_updated_def u h st Let_def)
qed

lemma concat_map_nth:
  "(\<And>i. i < length xs \<Longrightarrow> f i = g (xs ! i)) \<Longrightarrow>
   concat (map f [0..<length xs]) = concat (map g xs)"
proof -
  assume a: "\<And>i. i < length xs \<Longrightarrow> f i = g (xs ! i)"
  have "map f [0..<length xs] = map (\<lambda>i. g (xs ! i)) [0..<length xs]"
    using a by (intro map_cong) simp_all
  also have "\<dots> = map g (map (\<lambda>i. xs ! i) [0..<length xs])" by (simp add: comp_def)
  also have "\<dots> = map g xs" by (simp add: map_nth)
  finally show ?thesis by simp
qed

lemma spec_changes_distinct:
  assumes m: "0 \<le> max_history s" and d: "distinct (map (url_of s) batch)"
  shows "concat (map (\<lambda>i. spec_new (store_at batch s i) (batch ! i)) [0..<length batch]) =
           concat (map (spec_new s) batch)"
    and "concat (map (\<lambda>i. spec_updated (store_at batch s i) (batch ! i)) [0..<length batch]) =
           concat (map (spec_updated s) batch)"
  using spec_entries_distinct[OF m d] by (simp_all add: concat_map_nth)

lemma stamped_twice_store:
  "questions stamped_twice = [(''a'', [0, 1])]"
  "max_history stamped_twice = 3"
  "writable stamped_twice = (\<lambda>_. True)"
  "listeners stamped_twice = []"
  "question_url (heap stamped_twice r) = question_url (objects r)"
  "view_total (heap stamped_twice r) = view_total (objects r)"
  "answer_total (heap stamped_twice r) = answer_total (objects r)"
  by (simp_all add: stamped_twice_def new_manager_def objects_def item_def update_questions_def
      update_question_history_def record_change_def save_data_def notify_listeners_def Let_def)

text \<open>
  Claim C1. When the merge cycle returns (no negative \<open>max_history\<close>, the items file can be
  written, no listener raises), the change record holds, in the order of the batch: in \<open>new\<close>
  every item whose identity has no snapshot in the store that the item meets, once, and nothing
  for it in \<open>updated\<close>; in \<open>updated\<close> the identity and the two increments against the last
  snapshot of the history, for every item with a prior snapshot and a non-zero increment.
  When every identity occurs once in the batch, the store that an item meets agrees, for
  the item, with the store before the merge. Every item is appended to the history of its
  identity (which is then cut to its window) and carries \<open>saved_at\<close>, the clock reading made
  for it.
\<close>

theorem update_questions_changes:
  assumes "0 \<le> max_history s" and "writable s (data_file s)"
    and "\<forall>l\<in>set (listeners s). update l (data s) = None"
  shows "snd (update_questions batch s) =
           Inr \<lparr>updated = concat (map (\<lambda>i. spec_updated (store_at batch s i) (batch ! i))
                                   [0..<length batch]),
                new = concat (map (\<lambda>i. spec_new (store_at batch s i) (batch ! i))
                               [0..<length batch])\<rparr>
       \<and> (distinct (map (url_of s) batch) \<longrightarrow>
             snd (update_questions batch s) =
               Inr \<lparr>updated = concat (map (spec_updated s) batch),
                    new = concat (map (spec_new s) batch)\<rparr>)
       \<and> (\<forall>i<length batch.
             history (store_at batch s (Suc i)) (url_of s (batch ! i)) =
               window (max_history s)
                 (history (store_at batch s i) (url_of s (batch ! i)) @ [batch ! i])
           \<and> heap (store_at batch s (Suc i)) (batch ! i) =
               (heap (store_at batch s i) (batch ! i))\<lparr>saved_at := Some (clock s (tick s + i))\<rparr>)
       \<and> questions (fst (update_questions batch s)) = questions (store_at batch s (length batch))
       \<and> heap (fst (update_questions batch s)) = heap (store_at batch s (length batch))"
proof -
  have r: "snd (update_questions batch s) =
           Inr \<lparr>updated = concat (map (\<lambda>i. spec_updated (store_at batch s i) (batch ! i))
                                   [0..<length batch]),
                new = concat (map (\<lambda>i. spec_new (store_at batch s i) (batch ! i))
                               [0..<length batch])\<rparr>"
    unfolding update_questions_result[OF assms(1)]
    using assms(2) all_ok_first_error[OF assms(3)] by (simp add: spec_changes_def store_at_def)
  have r': "snd (update_questions batch s) =
               Inr \<lparr>updated = concat (map (spec_updated s) batch),
                    new = concat (map (spec_new s) batch)\<rparr>"
    if "distinct (map (url_of s) batch)"
    unfolding r spec_changes_distinct[OF assms(1) that] by simp
  have st: "questions (fst (update_questions batch s)) = questions (store_at batch s (length batch))"
    "heap (fst (update_questions batch s)) = heap (store_at batch s (length batch))"
    by (simp_all add: uq_store[OF assms(1)] store_at_def)
  show ?thesis
    using r r' st store_at_step[OF assms(1)] by blast
qed

theorem update_questions_changes_witness:
  "0 \<le> max_history (new_manager objects wall_clock 2 :: unit data_manager)
   \<and> writable (new_manager objects wall_clock 2 :: unit data_manager) ''questions.json''
   \<and> snd (update_questions [0, 1, 3] (new_manager objects wall_clock 2 :: unit data_manager)) =
       Inr \<lparr>updated = [(''a'', 50, 0)], new = [0, 3]\<rparr>
   \<and> distinct (map (url_of stamped_twice) [4, 3])
   \<and> snd (update_questions [4, 3] stamped_twice) = Inr \<lparr>updated = [(''a'', 30, 1)], new = [3]\<rparr>"
proof -
  let ?s = "new_manager objects wall_clock 2 :: unit data_manager"
  note f = stamped_twice_store
  have a: "snd (update_questions [0, 1, 3] ?s) = Inr \<lparr>updated = [(''a'', 50, 0)], new = [0, 3]\<rparr>"
    using update_questions_changes[of ?s "[0, 1, 3]"]
    by (simp add: new_manager_def objects_def item_def store_at_def merged_def
      update_question_history_def record_change_def spec_new_def spec_updated_def
      history_def url_of_def Let_def upt_rec)
  have d: "distinct (map (url_of stamped_twice) [4, 3])"
    by (simp add: url_of_def f objects_def item_def)
  have h: "0 \<le> max_history stamped_twice" "writable stamped_twice (data_file stamped_twice)"
    "\<forall>l\<in>set (listeners stamped_twice). update l (data stamped_twice) = None"
    by (simp_all add: f)
  have "snd (update_questions [4, 3] stamped_twice) =
      Inr \<lparr>updated = concat (map (spec_updated stamped_twice) [4, 3]),
           new = concat (map (spec_new stamped_twice) [4, 3])\<rparr>"
    using update_questions_changes[OF h, of "[4, 3]"] d by blast
  then have b: "snd (update_questions [4, 3] stamped_twice) =
      Inr \<lparr>updated = [(''a'', 30, 1)], new = [3]\<rparr>"
    by (simp add: f spec_new_def spec_updated_def history_def url_of_def objects_def item_def
        Let_def)
  show ?thesis using a b d by (simp add: new_manager_def)
qed

subsection \<open>Broadcast order and persistence\<close>

text \<open>
  Claim C5, as stated, fails: with a first listener whose \<open>update\<close> raises, the second
  registered listener is never notified and the exception leaves \<open>_notify_listeners\<close>.
\<close>

theorem notify_listeners_counterexample:
  "listeners two_listeners = [base_listener 0, quiet_listener 1]
   \<and> trace (fst (notify_listeners two_listeners)) = [Notified 0 None]
   \<and> Notified 1 None \<notin> set (trace (fst (notify_listeners two_listeners)))
   \<and> snd (notify_listeners two_listeners) = Some (RuntimeError ''NotImplementedError'')"
  by (simp add: two_listeners_def register_listener_def new_manager_def base_listener_def
      quiet_listener_def notify_listeners_def)

text \<open>
  Claim C5, amended. A broadcast calls \<open>update\<close> of the registered listeners in registration
  order, up to and including the first one that raises; its exception ends the broadcast.
\<close>

theorem notify_listeners_until_first_failure:
  "notify_listeners s =
     (s\<lparr>trace := trace s @ map (\<lambda>l. Notified (lid l) (data s)) (notified (data s) (listeners s))\<rparr>,
      first_error (data s) (listeners s))"
  by (simp add: notify_listeners_def notify_loop_result)

lemma questions_json_cong:
  "heap s' = heap s \<Longrightarrow> questions s' = questions s \<Longrightarrow> questions_json s' = questions_json s"
  by (simp add: questions_json_def)

lemma update_questions_trace:
  "(trace (fst (update_questions batch s)) = trace s
      \<and> (\<exists>e. snd (update_questions batch s) = Inl e))
   \<or> (trace (fst (update_questions batch s)) =
         trace s @ Saved (data_file s) (questions_json (fst (update_questions batch s))) #
           map (\<lambda>l. Notified (lid l) (data s)) (notified (data s) (listeners s))
      \<and> disk (fst (update_questions batch s)) (data_file s) =
          Some (questions_json (fst (update_questions batch s)))
      \<and> questions (fst (update_questions batch s)) = questions (merged batch s)
      \<and> heap (fst (update_questions batch s)) = heap (merged batch s))"
proof (cases "update_loop batch \<lparr>updated = [], new = []\<rparr> s")
  case (Pair s1 r)
  then have s1: "s1 = merged batch s" by (simp add: merged_def)
  show ?thesis
  proof (cases r)
    case (Inl e)
    then show ?thesis using Pair s1 by (simp add: update_questions_def merged_fields)
  next
    case (Inr ch)
    show ?thesis
    proof (cases "writable s (data_file s)")
      case False
      then show ?thesis using Pair Inr s1
        by (simp add: update_questions_def save_data_def merged_fields)
    next
      case True
      let ?s2 = "(merged batch s)
          \<lparr>disk := (disk s)(data_file s := Some (questions_json (merged batch s))),
           trace := trace s @ [Saved (data_file s) (questions_json (merged batch s))]\<rparr>"
      let ?s3 = "?s2\<lparr>trace := trace ?s2 @
          map (\<lambda>l. Notified (lid l) (data s)) (notified (data s) (listeners s))\<rparr>"
      have sv: "save_data (questions_json s1) (data_file s1) s1 = (?s2, None)"
        using True s1 by (simp add: save_data_def merged_fields)
      have nt: "notify_listeners ?s2 = (?s3, first_error (data s) (listeners s))"
        by (simp add: notify_listeners_def notify_loop_result merged_fields)
      have f: "fst (update_questions batch s) = ?s3"
        unfolding update_questions_def Pair Inr by (simp add: sv nt split: option.splits)
      have j: "questions_json ?s3 = questions_json (merged batch s)"
        by (rule questions_json_cong) simp_all
      show ?thesis unfolding f j by (simp add: merged_fields)
    qed
  qed
qed

lemma update_questions_saved:
  assumes m: "0 \<le> max_history s" and w: "writable s (data_file s)"
  shows "trace (fst (update_questions batch s)) =
         trace s @ Saved (data_file s) (questions_json (fst (update_questions batch s))) #
           map (\<lambda>l. Notified (lid l) (data s)) (notified (data s) (listeners s))
      \<and> disk (fst (update_questions batch s)) (data_file s) =
          Some (questions_json (fst (update_questions batch s)))"
proof -
  have j: "questions_json ((merged batch s)
             \<lparr>disk := (disk s)(data_file s := Some (questions_json (merged batch s))),
              trace := trace s @ Saved (data_file s) (questions_json (merged batch s)) #
                 map (\<lambda>l. Notified (lid l) (data s)) (notified (data s) (listeners s))\<rparr>)
      = questions_json (merged batch s)"
    by (rule questions_json_cong) simp_all
  show ?thesis
    unfolding update_questions_result[OF m] using w by (simp add: j)
qed

lemma listening_facts:
  "max_history listening = 2" "writable listening = (\<lambda>_. True)"
  "data_file listening = ''questions.json''" "trace listening = []" "data listening = None"
  "listeners listening = [quiet_listener 1]"
  "questions (fst (update_questions [0, 3] listening)) = [(''a'', [0]), (''b'', [3])]"
  "heap (fst (update_questions [0, 3] listening)) 0 =
     \<lparr>question_url = ''a'', view_total = 100, answer_total = 5, potential_score = 7,
      saved_at = Some (wall_clock 0)\<rparr>"
  "heap (fst (update_questions [0, 3] listening)) 3 =
     \<lparr>question_url = ''b'', view_total = 20, answer_total = 1, potential_score = 5,
      saved_at = Some (wall_clock 1)\<rparr>"
  by (simp_all add: listening_def register_listener_def quiet_listener_def new_manager_def
      objects_def item_def update_questions_def update_question_history_def record_change_def
      save_data_def notify_listeners_def Let_def)

lemma read_only_facts:
  "writable read_only = (\<lambda>_. False)" "data_file read_only = ''questions.json''"
  "trace read_only = []"
  "disk (fst (update_questions [0, 3] read_only)) ''questions.json'' = None"
  "snd (update_questions [0, 3] read_only) = Inl OSError"
  by (simp_all add: read_only_def new_manager_def objects_def item_def update_questions_def
      update_question_history_def record_change_def save_data_def Let_def)

text \<open>
  Claim C6. A merge cycle either raises without adding anything to the trace, which happens
  only when \<open>max_history\<close> is negative or the items file cannot be written, and then nobody
  is notified; or it adds the write of the items file first and the notifications after it.
  What is written is the whole store as the merge has left it and as the listeners find it:
  for every key of \<open>questions\<close>, in the order of the dict, the values that the objects of its
  history have in the object store, \<open>saved_at\<close> included; the file holds exactly that.
\<close>

theorem persist_before_notify:
  "((max_history s < 0 \<or> \<not> writable s (data_file s))
      \<and> trace (fst (update_questions batch s)) = trace s
      \<and> (\<exists>e. snd (update_questions batch s) = Inl e))
   \<or> (trace (fst (update_questions batch s)) =
         trace s @
         Saved (data_file s)
           (QuestionsJson (map (\<lambda>(k, h). (k, map (heap (fst (update_questions batch s))) h))
              (questions (fst (update_questions batch s))))) #
         map (\<lambda>l. Notified (lid l) (data s)) (notified (data s) (listeners s))
      \<and> disk (fst (update_questions batch s)) (data_file s) =
          Some (QuestionsJson (map (\<lambda>(k, h). (k, map (heap (fst (update_questions batch s))) h))
                  (questions (fst (update_questions batch s)))))
      \<and> questions (fst (update_questions batch s)) = questions (merged batch s)
      \<and> heap (fst (update_questions batch s)) = heap (merged batch s))"
proof (cases "0 \<le> max_history s \<and> writable s (data_file s)")
  case True
  then show ?thesis
    using update_questions_saved[of s batch] uq_store(1,2)[of s batch]
    by (simp add: questions_json_def)
next
  case False
  then show ?thesis
    using update_questions_trace[of batch s] by (auto simp: questions_json_def)
qed

theorem persist_before_notify_witness:
  "0 \<le> max_history listening \<and> writable listening (data_file listening)
   \<and> trace (fst (update_questions [0, 3] listening)) =
       [Saved ''questions.json''
          (QuestionsJson
             [(''a'', [\<lparr>question_url = ''a'', view_total = 100, answer_total = 5,
                        potential_score = 7, saved_at = Some (wall_clock 0)\<rparr>]),
              (''b'', [\<lparr>question_url = ''b'', view_total = 20, answer_total = 1,
                        potential_score = 5, saved_at = Some (wall_clock 1)\<rparr>])]),
        Notified 1 None]
   \<and> disk (fst (update_questions [0, 3] listening)) ''questions.json'' =
       Some (QuestionsJson
             [(''a'', [\<lparr>question_url = ''a'', view_total = 100, answer_total = 5,
                        potential_score = 7, saved_at = Some (wall_clock 0)\<rparr>]),
              (''b'', [\<lparr>question_url = ''b'', view_total = 20, answer_total = 1,
                        potential_score = 5, saved_at = Some (wall_clock 1)\<rparr>])])
   \<and> writable read_only (data_file read_only) = False
   \<and> trace (fst (update_questions [0, 3] read_only)) = []
   \<and> snd (update_questions [0, 3] read_only) = Inl OSError"
proof -
  note f = listening_facts and g = read_only_facts
  have a: "trace (fst (update_questions [0, 3] listening)) =
       [Saved ''questions.json''
          (QuestionsJson
             [(''a'', [\<lparr>question_url = ''a'', view_total = 100, answer_total = 5,
                        potential_score = 7, saved_at = Some (wall_clock 0)\<rparr>]),
              (''b'', [\<lparr>question_url = ''b'', view_total = 20, answer_total = 1,
                        potential_score = 5, saved_at = Some (wall_clock 1)\<rparr>])]),
        Notified 1 None]
   \<and> disk (fst (update_questions [0, 3] listening)) ''questions.json'' =
       Some (QuestionsJson
             [(''a'', [\<lparr>question_url = ''a'', view_total = 100, answer_total = 5,
                        potential_score = 7, saved_at = Some (wall_clock 0)\<rparr>]),
              (''b'', [\<lparr>question_url = ''b'', view_total = 20, answer_total = 1,
                        potential_score = 5, saved_at = Some (wall_clock 1)\<rparr>])])"
    using persist_before_notify[of listening "[0, 3]"]
    by (simp add: f notified_def quiet_listener_def)
  have b: "trace (fst (update_questions [0, 3] read_only)) = []"
    using persist_before_notify[of read_only "[0, 3]"] by (simp add: g)
  show ?thesis using a b by (simp add: f g)
qed


subsection \<open>The entries of \<open>ChangeRecord.new\<close>\<close>

lemma spec_new_subset: "x \<in> set (spec_new s q) \<Longrightarrow> x = q"
  by (simp add: spec_new_def split: if_splits)

lemma spec_changes_new_subset: "x \<in> set (new (spec_changes batch s)) \<Longrightarrow> x \<in> set batch"
proof -
  assume "x \<in> set (new (spec_changes batch s))"
  then obtain i where "i < length batch" "x \<in> set (spec_new (merged (take i batch) s) (batch ! i))"
    by (auto simp: spec_changes_def)
  then show ?thesis using spec_new_subset[of x "merged (take i batch) s" "batch ! i"] by simp
qed

lemma merged_stamp:
  assumes m: "0 \<le> max_history s"
  shows "q \<in> set xs \<Longrightarrow>
    \<exists>i<length xs. saved_at (heap (merged xs s) q) = Some (clock s (tick s + i))"
proof (induction xs rule: rev_induct)
  case Nil
  then show ?case by simp
next
  case (snoc x xs)
  have m1: "0 \<le> max_history (merged xs s)" using m by (simp add: merged_max)
  have hp: "heap (merged (xs @ [x]) s) =
      (heap (merged xs s))(x := (heap (merged xs s) x)\<lparr>saved_at := Some (clock s (tick s + length xs))\<rparr>)"
    unfolding merged_snoc[OF m] uqh_heap[OF m1] by (simp add: merged_fields merged_static[OF m])
  show ?case
  proof (cases "q = x")
    case True
    then have "saved_at (heap (merged (xs @ [x]) s) q) = Some (clock s (tick s + length xs))"
      unfolding hp by simp
    then show ?thesis by (intro exI[of _ "length xs"]) simp
  next
    case False
    then have "q \<in> set xs" using snoc.prems by simp
    then obtain i where "i < length xs" "saved_at (heap (merged xs s) q) = Some (clock s (tick s + i))"
      using snoc.IH by blast
    then show ?thesis unfolding hp using False by (intro exI[of _ i]) simp
  qed
qed

text \<open>
  Claim C10, as stated, fails when an identity occurs twice in one batch: the first item is
  returned in \<open>new\<close>, and the second one, with other totals, is the latest history entry.
\<close>

theorem new_entry_latest_counterexample:
  "snd (update_questions [0, 1] (new_manager objects wall_clock 3 :: unit data_manager)) =
     Inr \<lparr>updated = [(''a'', 50, 0)], new = [0]\<rparr>
   \<and> history stamped_twice ''a'' = [0, 1]
   \<and> last (history stamped_twice ''a'') = 1
   \<and> view_total (heap stamped_twice 0) = 100
   \<and> view_total (heap stamped_twice (last (history stamped_twice ''a''))) = 150"
  by (simp add: stamped_twice_def new_manager_def objects_def item_def update_questions_def
      update_question_history_def record_change_def save_data_def notify_listeners_def
      history_def Let_def)

text \<open>
  Claim C10, amended. The entries of \<open>new\<close> are the incoming objects themselves, which
  \<open>update_question_history\<close> stamps in place: in the returned state every entry carries a
  \<open>saved_at\<close> reading of the clock made during this cycle, and an entry whose identity
  occurs once in the batch is the last element of the history of its identity
  (\<open>max_history \<ge> 1\<close>).
\<close>

theorem new_entries_are_stamped_objects:
  assumes "1 \<le> max_history s" and "writable s (data_file s)"
    and "\<forall>l\<in>set (listeners s). update l (data s) = None"
  shows "\<exists>ch. snd (update_questions batch s) = Inr ch
     \<and> (\<forall>q\<in>set (new ch).
           q \<in> set batch
         \<and> (\<exists>i<length batch.
               saved_at (heap (fst (update_questions batch s)) q) = Some (clock s (tick s + i)))
         \<and> (filter (\<lambda>r. url_of s r = url_of s q) batch = [q] \<longrightarrow>
               history (fst (update_questions batch s)) (url_of s q) \<noteq> []
             \<and> last (history (fst (update_questions batch s)) (url_of s q)) = q))"
proof -
  have m: "0 \<le> max_history s" using assms(1) by simp
  have r: "snd (update_questions batch s) = Inr (spec_changes batch s)"
    unfolding update_questions_result[OF m]
    using assms(2) all_ok_first_error[OF assms(3)] by simp
  have "q \<in> set batch
     \<and> (\<exists>i<length batch.
           saved_at (heap (fst (update_questions batch s)) q) = Some (clock s (tick s + i)))
     \<and> (filter (\<lambda>r. url_of s r = url_of s q) batch = [q] \<longrightarrow>
           history (fst (update_questions batch s)) (url_of s q) \<noteq> []
         \<and> last (history (fst (update_questions batch s)) (url_of s q)) = q)"
    if q: "q \<in> set (new (spec_changes batch s))" for q
  proof -
    have qb: "q \<in> set batch" using q spec_changes_new_subset by blast
    have st: "\<exists>i<length batch.
        saved_at (heap (fst (update_questions batch s)) q) = Some (clock s (tick s + i))"
      unfolding uq_store(2)[OF m] by (rule merged_stamp[OF m qb])
    have lt: "history (fst (update_questions batch s)) (url_of s q) \<noteq> []
         \<and> last (history (fst (update_questions batch s)) (url_of s q)) = q"
      if one: "filter (\<lambda>r. url_of s r = url_of s q) batch = [q]"
    proof -
      have "history (fst (update_questions batch s)) (url_of s q) =
          window (max_history s) (history s (url_of s q) @ [q])"
        unfolding uq_history[OF m] merged_history[OF m] one by simp
      then show ?thesis using window_last[OF assms(1), of "history s (url_of s q) @ [q]"] by simp
    qed
    show ?thesis using qb st lt by blast
  qed
  then show ?thesis using r by blast
qed

theorem new_entries_are_stamped_objects_witness:
  "1 \<le> max_history (new_manager objects wall_clock 2 :: unit data_manager)
   \<and> writable (new_manager objects wall_clock 2 :: unit data_manager)
        (data_file (new_manager objects wall_clock 2 :: unit data_manager))
   \<and> snd (update_questions [0, 3] (new_manager objects wall_clock 2 :: unit data_manager)) =
        Inr \<lparr>updated = [], new = [0, 3]\<rparr>
   \<and> last (history (fst (update_questions [0, 3]
          (new_manager objects wall_clock 2 :: unit data_manager))) ''a'') = 0
   \<and> last (history (fst (update_questions [0, 3]
          (new_manager objects wall_clock 2 :: unit data_manager))) ''b'') = 3"
proof -
  let ?s = "new_manager objects wall_clock 2 :: unit data_manager"
  have h1: "1 \<le> max_history ?s" by (simp add: new_manager_def)
  have h2: "writable ?s (data_file ?s)" by (simp add: new_manager_def)
  have h3: "\<forall>l\<in>set (listeners ?s). update l (data ?s) = None" by (simp add: new_manager_def)
  obtain ch where ch: "snd (update_questions [0, 3] ?s) = Inr ch"
    and P: "\<forall>q\<in>set (new ch). q \<in> set [0, 3]
         \<and> (\<exists>i<length [0, 3::nat].
               saved_at (heap (fst (update_questions [0, 3] ?s)) q) = Some (clock ?s (tick ?s + i)))
         \<and> (filter (\<lambda>r. url_of ?s r = url_of ?s q) [0, 3] = [q] \<longrightarrow>
               history (fst (update_questions [0, 3] ?s)) (url_of ?s q) \<noteq> []
             \<and> last (history (fst (update_questions [0, 3] ?s)) (url_of ?s q)) = q)"
    using new_entries_are_stamped_objects[OF h1 h2 h3, of "[0, 3]"] by blast
  have e: "snd (update_questions [0, 3] ?s) = Inr \<lparr>updated = [], new = [0, 3]\<rparr>"
    by (simp add: new_manager_def objects_def item_def update_questions_def
        update_question_history_def record_change_def save_data_def notify_listeners_def Let_def)
  then have n: "new ch = [0, 3]" using ch by simp
  have u0: "url_of ?s 0 = ''a''" and u3: "url_of ?s 3 = ''b''"
    by (simp_all add: url_of_def new_manager_def objects_def item_def)
  have f0: "filter (\<lambda>r. url_of ?s r = url_of ?s 0) [0, 3] = [0]"
    and f3: "filter (\<lambda>r. url_of ?s r = url_of ?s 3) [0, 3] = [3]"
    by (simp_all add: u0 u3)
  have "last (history (fst (update_questions [0, 3] ?s)) (url_of ?s 0)) = 0"
    using P n f0 by simp
  moreover have "last (history (fst (update_questions [0, 3] ?s)) (url_of ?s 3)) = 3"
    using P n f3 by simp
  ultimately show ?thesis using h1 h2 e u0 u3 by simp
qed

subsection \<open>The scheduler\<close>

lemma perform_update_failed:
  "perform_update (Inl e) t =
     t\<lparr>manager := (manager t)\<lparr>tick := Suc (Suc (tick (manager t)))\<rparr>,
       last_refresh_time := clock (manager t) (Suc (tick (manager t))),
       console := console t @ [Fetching (clock (manager t) (tick (manager t))), ErrorOccurred e]\<rparr>"
  by (simp add: perform_update_def strftime_def print_def Let_def)

lemma perform_update_flags:
  "stop_event (perform_update f t) = stop_event t"
  "refresh_event (perform_update f t) = refresh_event t"
  by (simp_all add: perform_update_def strftime_def print_def Let_def
      split: sum.splits prod.splits)

text \<open>
  Claim C8. When \<open>fetch_data\<close> raises in a cycle of the worker, \<open>perform_update\<close> returns:
  the worker goes on to its wait, the store, the watch list, the files and the trace of the
  manager are as before, and the console shows the exception. Unless the stop flag is set,
  the worker is back at \<open>perform_update\<close> three steps later and carries out the next cycle.
\<close>

theorem fetch_failure_skips_cycle:
  assumes "worker y = Update"
  shows "worker (step (Worker (Inl e)) y) = Wait
     \<and> questions (manager (tracker (step (Worker (Inl e)) y))) = questions (manager (tracker y))
     \<and> heap (manager (tracker (step (Worker (Inl e)) y))) = heap (manager (tracker y))
     \<and> watched_questions (manager (tracker (step (Worker (Inl e)) y))) =
         watched_questions (manager (tracker y))
     \<and> disk (manager (tracker (step (Worker (Inl e)) y))) = disk (manager (tracker y))
     \<and> trace (manager (tracker (step (Worker (Inl e)) y))) = trace (manager (tracker y))
     \<and> console (tracker (step (Worker (Inl e)) y)) =
         console (tracker y) @
           [Fetching (clock (manager (tracker y)) (tick (manager (tracker y)))), ErrorOccurred e]
     \<and> (\<not> stop_event (tracker y) \<longrightarrow>
           worker (exec [Worker (Inl e), Worker f1, Worker f2, Worker f3] y) = Update
         \<and> cycles (exec [Worker (Inl e), Worker f1, Worker f2, Worker f3, Worker f4] y) =
             Suc (Suc (cycles y)))"
  using assms by (simp add: perform_update_failed)

theorem fetch_failure_skips_cycle_witness:
  "worker at_update = Update
   \<and> \<not> stop_event (tracker at_update)
   \<and> worker (step (Worker (Inl OSError)) at_update) = Wait
   \<and> questions (manager (tracker (step (Worker (Inl OSError)) at_update))) = []
   \<and> console (tracker (step (Worker (Inl OSError)) at_update)) =
       [Fetching (wall_clock 0), ErrorOccurred OSError]
   \<and> worker (exec [Worker (Inl OSError), Worker (Inr []), Worker (Inr []), Worker (Inr [])]
        at_update) = Update"
proof -
  have w: "worker at_update = Update"
    by (simp add: at_update_def started_def new_tracker_def)
  have s: "\<not> stop_event (tracker at_update)"
    by (simp add: at_update_def started_def new_tracker_def)
  have m: "questions (manager (tracker at_update)) = []" "console (tracker at_update) = []"
    "clock (manager (tracker at_update)) = wall_clock" "tick (manager (tracker at_update)) = 0"
    by (simp_all add: at_update_def started_def new_tracker_def new_manager_def)
  show ?thesis
    using fetch_failure_skips_cycle[OF w, of OSError "Inr []" "Inr []" "Inr []" "Inr []"] w s m
    by simp
qed

lemma step_keeps_stop: "stop_event (tracker y) \<Longrightarrow> stop_event (tracker (step a y))"
  by (cases a; cases "worker y") (simp_all add: perform_update_flags stop_def refresh_def)

lemma step_budget:
  "stop_event (tracker y) \<Longrightarrow>
   cycles (step a y) + (if worker (step a y) = Update then 1 else 0)
     \<le> cycles y + (if worker y = Update then 1 else 0)"
  by (cases a; cases "worker y") simp_all

lemma exec_budget:
  "stop_event (tracker y) \<Longrightarrow>
   cycles (exec as y) + (if worker (exec as y) = Update then 1 else 0)
     \<le> cycles y + (if worker y = Update then 1 else 0)"
proof (induction as arbitrary: y)
  case Nil
  then show ?case by simp
next
  case (Cons a as)
  have "cycles (exec as (step a y)) + (if worker (exec as (step a y)) = Update then 1 else 0)
      \<le> cycles (step a y) + (if worker (step a y) = Update then 1 else 0)"
    by (rule Cons.IH[OF step_keeps_stop[OF Cons.prems]])
  also have "\<dots> \<le> cycles y + (if worker y = Update then 1 else 0)"
    by (rule step_budget[OF Cons.prems])
  finally show ?case by simp
qed

lemma step_to_exit:
  "stop_event (tracker y) \<Longrightarrow>
   steps_to_exit (worker (step a y)) =
     (if by_worker a then steps_to_exit (worker y) - 1 else steps_to_exit (worker y))"
  by (cases a; cases "worker y") (simp_all add: by_worker_def)

lemma exec_to_exit:
  "stop_event (tracker y) \<Longrightarrow>
   steps_to_exit (worker (exec as y)) = steps_to_exit (worker y) - length (filter by_worker as)"
proof (induction as arbitrary: y)
  case Nil
  then show ?case by simp
next
  case (Cons a as)
  show ?case
    using Cons.IH[OF step_keeps_stop[OF Cons.prems], of a] step_to_exit[OF Cons.prems, of a]
    by simp
qed

lemma steps_to_exit_le: "steps_to_exit p \<le> 4"
  by (cases p) simp_all

lemma steps_to_exit_0: "steps_to_exit p = 0 \<longleftrightarrow> p = Exited"
  by (cases p) simp_all

text \<open>
  Claim C7, as stated, fails: \<open>stop()\<close> has returned while the worker stands between its
  loop test and \<open>perform_update\<close>; the worker's next step merges a batch into the store.
\<close>

theorem stop_returns_at_once_counterexample:
  "stop_event (tracker stopped_in_flight)
   \<and> worker stopped_in_flight = Update
   \<and> questions (manager (tracker stopped_in_flight)) = []
   \<and> questions (manager (tracker (step (Worker (Inr [0])) stopped_in_flight))) = [(''a'', [0])]"
  by (simp add: stopped_in_flight_def started_def new_tracker_def stop_def new_manager_def
      objects_def item_def perform_update_def strftime_def print_def update_questions_def
      update_question_history_def record_change_def save_data_def notify_listeners_def Let_def)

text \<open>
  Claim C7, amended. \<open>stop()\<close> sets the stop flag and returns; it does not wait for the
  worker and changes nothing else. Once the flag is set, the worker performs at most the one
  cycle it had already entered after its loop test, and it has left \<open>run\<close> after at most
  four of its steps.
\<close>

theorem stop_only_sets_flag:
  "worker (step CallStop y) = worker y
   \<and> stop_event (tracker (step CallStop y))
   \<and> manager (tracker (step CallStop y)) = manager (tracker y)
   \<and> (stop_event (tracker y) \<longrightarrow>
         cycles (exec as y) \<le> cycles y + (if worker y = Update then 1 else 0)
       \<and> (4 \<le> length (filter by_worker as) \<longrightarrow> worker (exec as y) = Exited))"
proof -
  have "cycles (exec as y) \<le> cycles y + (if worker y = Update then 1 else 0)"
    if "stop_event (tracker y)"
    using exec_budget[OF that, of as] by (simp split: if_splits)
  moreover have "worker (exec as y) = Exited"
    if "stop_event (tracker y)" "4 \<le> length (filter by_worker as)"
    using exec_to_exit[OF that(1), of as] that(2) steps_to_exit_le[of "worker y"]
    by (simp add: steps_to_exit_0[symmetric])
  ultimately show ?thesis by (simp add: stop_def)
qed

theorem stop_only_sets_flag_witness:
  "stop_event (tracker stopped_in_flight)
   \<and> 4 \<le> length (filter by_worker [Worker (Inr [0]), Worker (Inr [1]), CallRefresh (Inr [3]),
        Worker (Inr [1]), Worker (Inr [1]), Worker (Inr [1])])
   \<and> cycles (exec [Worker (Inr [0]), Worker (Inr [1]), CallRefresh (Inr [3]),
        Worker (Inr [1]), Worker (Inr [1]), Worker (Inr [1])] stopped_in_flight)
       \<le> cycles stopped_in_flight + 1
   \<and> worker (exec [Worker (Inr [0]), Worker (Inr [1]), CallRefresh (Inr [3]),
        Worker (Inr [1]), Worker (Inr [1]), Worker (Inr [1])] stopped_in_flight) = Exited"
proof -
  have s: "stop_event (tracker stopped_in_flight)" and w: "worker stopped_in_flight = Update"
    by (simp_all add: stopped_in_flight_def started_def new_tracker_def stop_def)
  have n: "4 \<le> length (filter by_worker [Worker (Inr [0]), Worker (Inr [1]),
      CallRefresh (Inr [3]), Worker (Inr [1]), Worker (Inr [1]), Worker (Inr [1])])"
    by (simp add: by_worker_def)
  show ?thesis
    using stop_only_sets_flag[of stopped_in_flight "[Worker (Inr [0]), Worker (Inr [1]),
      CallRefresh (Inr [3]), Worker (Inr [1]), Worker (Inr [1]), Worker (Inr [1])]"] s w n
    by simp
qed

subsection \<open>The watch list\<close>

lemma history_ne_key: "history s u \<noteq> [] \<Longrightarrow> map_of (questions s) u \<noteq> None"
  by (cases "map_of (questions s) u") (simp_all add: history_def)

lemma add_to_watched_noop:
  "map_of (watched_questions s) u \<noteq> None \<or> map_of (questions s) u = None \<Longrightarrow>
   add_to_watched u s = (s, None)"
  by (auto simp: add_to_watched_def)

lemma remove_from_watched_noop:
  "map_of (watched_questions s) u = None \<Longrightarrow> remove_from_watched u s = (s, None)"
  by (simp add: remove_from_watched_def)

lemma add_to_watched_adds:
  assumes "map_of (watched_questions s) u = None" and "history s u \<noteq> []"
  shows "add_to_watched u s =
     save_data (watched_json (s\<lparr>watched_questions := watched_questions s @ [(u, last (history s u))]\<rparr>))
       (watched_file s)
       (s\<lparr>watched_questions := watched_questions s @ [(u, last (history s u))]\<rparr>)"
proof -
  obtain h hs where h: "history s u = h # hs" using assms(2) by (cases "history s u") auto
  show ?thesis
    using assms(1) history_ne_key[OF assms(2)] h
    by (simp add: add_to_watched_def Let_def dict_set_absent)
qed

lemma save_data_fields:
  "watched_questions (fst (save_data c f s)) = watched_questions s"
  "questions (fst (save_data c f s)) = questions s"
  "heap (fst (save_data c f s)) = heap s"
  "watched_file (fst (save_data c f s)) = watched_file s"
  by (simp_all add: save_data_def)

lemma history_save: "history (fst (save_data c f s)) u = history s u"
  by (simp add: history_def save_data_fields)

lemma remove_from_watched_state:
  "map_of (watched_questions s) u \<noteq> None \<Longrightarrow>
   watched_questions (fst (remove_from_watched u s)) = dict_del u (watched_questions s)
   \<and> questions (fst (remove_from_watched u s)) = questions s
   \<and> heap (fst (remove_from_watched u s)) = heap s"
  by (simp add: remove_from_watched_def Let_def save_data_fields)

lemma stamped_twice_facts:
  "map_of (watched_questions stamped_twice) ''a'' = None"
  "history stamped_twice ''a'' = [0, 1]"
  "writable stamped_twice (watched_file stamped_twice)"
  "map_of (questions stamped_twice) ''b'' = None"
  "watched_questions stamped_twice = []"
  by (simp_all add: stamped_twice_def new_manager_def objects_def item_def update_questions_def
      update_question_history_def record_change_def save_data_def notify_listeners_def
      history_def Let_def)

text \<open>
  Claim C9, as stated, fails for a watched identity that the store does not know:
  \<open>remove_from_watched\<close> removes it, and the following \<open>add_to_watched\<close> does nothing.
\<close>

theorem watch_round_trip_counterexample:
  "map_of (watched_questions orphan_watch) ''a'' = Some 0
   \<and> snd (remove_from_watched ''a'' orphan_watch) = None
   \<and> add_to_watched ''a'' (fst (remove_from_watched ''a'' orphan_watch)) =
       (fst (remove_from_watched ''a'' orphan_watch), None)
   \<and> watched_questions (fst (add_to_watched ''a'' (fst (remove_from_watched ''a'' orphan_watch)))) = []"
  by (simp add: orphan_watch_def new_manager_def add_to_watched_def remove_from_watched_def
      save_data_def Let_def)

text \<open>
  Claim C9, amended. \<open>add_to_watched\<close> changes nothing when the identity is watched or not
  a key of the store; for an unwatched identity with a non-empty history it appends the
  reference to the last history element to the watch list, leaves the store as it is and,
  when the watched file can be written, stores the watch list there.
  \<open>remove_from_watched\<close> changes nothing when the identity is not watched. For a watched
  identity with a non-empty history in the store, \<open>remove_from_watched\<close> followed by
  \<open>add_to_watched\<close> leaves it watched, with the last history element.
\<close>

theorem watch_operations:
  "((map_of (watched_questions s) u \<noteq> None \<or> map_of (questions s) u = None) \<longrightarrow>
      add_to_watched u s = (s, None))
   \<and> (map_of (watched_questions s) u = None \<and> history s u \<noteq> [] \<longrightarrow>
        watched_questions (fst (add_to_watched u s)) =
          watched_questions s @ [(u, last (history s u))]
      \<and> questions (fst (add_to_watched u s)) = questions s
      \<and> heap (fst (add_to_watched u s)) = heap s
      \<and> (writable s (watched_file s) \<longrightarrow>
            snd (add_to_watched u s) = None
          \<and> disk (fst (add_to_watched u s)) (watched_file s) =
              Some (watched_json (fst (add_to_watched u s)))))
   \<and> (map_of (watched_questions s) u = None \<longrightarrow> remove_from_watched u s = (s, None))
   \<and> (dict_ok (watched_questions s) \<and> map_of (watched_questions s) u \<noteq> None
        \<and> history s u \<noteq> [] \<longrightarrow>
        map_of (watched_questions (fst (add_to_watched u (fst (remove_from_watched u s))))) u =
          Some (last (history s u)))"
proof -
  have a: "watched_questions (fst (add_to_watched u s)) =
          watched_questions s @ [(u, last (history s u))]
      \<and> questions (fst (add_to_watched u s)) = questions s
      \<and> heap (fst (add_to_watched u s)) = heap s
      \<and> (writable s (watched_file s) \<longrightarrow>
            snd (add_to_watched u s) = None
          \<and> disk (fst (add_to_watched u s)) (watched_file s) =
              Some (watched_json (fst (add_to_watched u s))))"
    if "map_of (watched_questions s) u = None" "history s u \<noteq> []"
    unfolding add_to_watched_adds[OF that]
    by (simp add: save_data_def watched_json_def)
  have b: "map_of (watched_questions (fst (add_to_watched u (fst (remove_from_watched u s))))) u =
          Some (last (history s u))"
    if ok: "dict_ok (watched_questions s)" and w: "map_of (watched_questions s) u \<noteq> None"
      and h: "history s u \<noteq> []"
  proof -
    let ?s1 = "fst (remove_from_watched u s)"
    have r: "watched_questions ?s1 = dict_del u (watched_questions s)"
      "questions ?s1 = questions s"
      using remove_from_watched_state[OF w] by simp_all
    have h1: "history ?s1 u = history s u" by (simp add: history_def r)
    have w1: "map_of (watched_questions ?s1) u = None"
      unfolding r using map_of_dict_del[OF ok, of u] by simp
    have "watched_questions (fst (add_to_watched u ?s1)) =
        watched_questions ?s1 @ [(u, last (history ?s1 u))]"
      unfolding add_to_watched_adds[OF w1 h1[THEN ssubst, of "\<lambda>x. x \<noteq> []", OF h]]
      by (simp add: save_data_fields)
    then show ?thesis using w1 by (simp add: h1 map_add_def)
  qed
  show ?thesis
    using add_to_watched_noop[of s u] remove_from_watched_noop[of s u] a b by blast
qed

theorem watch_operations_witness:
  "map_of (watched_questions stamped_twice) ''a'' = None
   \<and> history stamped_twice ''a'' = [0, 1]
   \<and> watched_questions watching = [(''a'', 1)]
   \<and> snd (add_to_watched ''a'' stamped_twice) = None
   \<and> remove_from_watched ''a'' stamped_twice = (stamped_twice, None)
   \<and> add_to_watched ''b'' stamped_twice = (stamped_twice, None)
   \<and> add_to_watched ''a'' watching = (watching, None)
   \<and> map_of (watched_questions (fst (add_to_watched ''a'' (fst (remove_from_watched ''a'' watching)))))
        ''a'' = Some 1"
proof -
  note f = stamped_twice_facts
  have A: "watched_questions watching = [(''a'', 1)]" "questions watching = questions stamped_twice"
    "snd (add_to_watched ''a'' stamped_twice) = None"
    "remove_from_watched ''a'' stamped_twice = (stamped_twice, None)"
    using watch_operations[of stamped_twice "''a''"] f
    by (simp_all add: watching_def)
  have B: "add_to_watched ''b'' stamped_twice = (stamped_twice, None)"
    using watch_operations[of stamped_twice "''b''"] f by simp
  have h: "history watching ''a'' = [0, 1]" using f(2) A(2) by (simp add: history_def)
  have C: "add_to_watched ''a'' watching = (watching, None)"
    "map_of (watched_questions (fst (add_to_watched ''a'' (fst (remove_from_watched ''a'' watching)))))
        ''a'' = Some 1"
    using watch_operations[of watching "''a''"] A(1) h by (simp_all add: dict_ok_def)
  show ?thesis using f A B C by simp
qed

subsection \<open>The question list\<close>

lemma watched_loop_result:
  "watched_loop ws s (ql, ids) =
     (ql @ map (\<lambda>w. last (history s w)) (with_history s ws), ids @ with_history s ws)"
  by (induction ws arbitrary: ql ids) (simp_all add: with_history_def Let_def)

lemma ranked_loop_result:
  "distinct (map fst raw) \<Longrightarrow>
   ranked_loop raw (ql, ids) =
     (ql @ map (\<lambda>x. last (snd x)) (filter (\<lambda>x. snd x \<noteq> [] \<and> fst x \<notin> set ids) raw),
      ids @ map fst (filter (\<lambda>x. snd x \<noteq> [] \<and> fst x \<notin> set ids) raw))"
proof (induction raw arbitrary: ql ids)
  case Nil
  then show ?case by simp
next
  case (Cons x raw)
  obtain k h where x: "x = (k, h)" by (cases x)
  have d: "distinct (map fst raw)" and k: "k \<notin> fst ` set raw" using Cons.prems x by auto
  show ?case
  proof (cases "h \<noteq> [] \<and> k \<notin> set ids")
    case True
    have "filter (\<lambda>y. snd y \<noteq> [] \<and> fst y \<notin> set (ids @ [k])) raw =
        filter (\<lambda>y. snd y \<noteq> [] \<and> fst y \<notin> set ids) raw"
      using k by (intro filter_cong) auto
    then show ?thesis using True x Cons.IH[OF d, of "ql @ [last h]" "ids @ [k]"] by simp
  next
    case False
    then show ?thesis using x Cons.IH[OF d, of ql ids] by auto
  qed
qed

lemma sorted_reverse_set: "set (sorted_reverse f xs) = set xs"
  by (simp add: sorted_reverse_def)

lemma sorted_reverse_keys:
  "dict_ok xs \<Longrightarrow> distinct (map fst (sorted_reverse f xs))"
  by (simp add: dict_ok_def sorted_reverse_def distinct_map)

lemma dict_ok_history: "dict_ok (questions s) \<Longrightarrow> (k, h) \<in> set (questions s) \<Longrightarrow> history s k = h"
  by (simp add: dict_ok_def history_def)

lemma question_lists_result:
  assumes q: "dict_ok (questions s)"
    and ne: "\<not> list_ex (\<lambda>x. snd x = []) (questions s)"
  shows "question_lists s =
     Inr (map (\<lambda>k. last (history s k))
            (with_history s (map fst (watched_questions s)) @
             filter (\<lambda>k. k \<notin> fst ` set (watched_questions s)) (ranked_keys s)),
          with_history s (map fst (watched_questions s)) @
          filter (\<lambda>k. k \<notin> fst ` set (watched_questions s)) (ranked_keys s))"
proof -
  let ?W = "map fst (watched_questions s)"
  let ?wids = "with_history s ?W"
  let ?raw = "sorted_reverse (\<lambda>x. potential_score (heap s (hd (snd x)))) (questions s)"
  let ?P = "\<lambda>x. snd x \<noteq> [] \<and> fst x \<notin> set ?wids"
  let ?Q = "\<lambda>x. fst x \<notin> fst ` set (watched_questions s)"
  have all_ne: "\<And>x. x \<in> set (questions s) \<Longrightarrow> snd x \<noteq> []"
    using ne by (auto simp: list_ex_iff)
  have raw: "raw_questions_list s = Inr ?raw" using ne by (simp add: raw_questions_list_def)
  have hist: "\<And>x. x \<in> set ?raw \<Longrightarrow> history s (fst x) = snd x"
    using dict_ok_history[OF q] by (simp add: sorted_reverse_set)
  have PQ: "filter ?P ?raw = filter ?Q ?raw"
  proof (intro filter_cong refl)
    fix x assume x: "x \<in> set ?raw"
    then have "snd x \<noteq> []" using all_ne by (simp add: sorted_reverse_set)
    moreover have "fst x \<in> set ?wids \<longleftrightarrow> fst x \<in> fst ` set (watched_questions s)"
      using hist[OF x] \<open>snd x \<noteq> []\<close> by (auto simp: with_history_def)
    ultimately show "?P x = ?Q x" by simp
  qed
  have keys: "map fst (filter ?Q ?raw) =
      filter (\<lambda>k. k \<notin> fst ` set (watched_questions s)) (ranked_keys s)"
    by (simp add: ranked_keys_def filter_map comp_def)
  have lasts: "map (\<lambda>x. last (snd x)) (filter ?Q ?raw) =
      map (\<lambda>k. last (history s k)) (map fst (filter ?Q ?raw))"
    using hist by (simp add: comp_def)
  have rl: "ranked_loop ?raw (map (\<lambda>w. last (history s w)) ?wids, ?wids) =
      (map (\<lambda>w. last (history s w)) ?wids @ map (\<lambda>x. last (snd x)) (filter ?P ?raw),
       ?wids @ map fst (filter ?P ?raw))"
    by (rule ranked_loop_result[OF sorted_reverse_keys[OF q]])
  show ?thesis
    unfolding question_lists_def raw Let_def
    using watched_loop_result[of ?W s "[]" "[]"] rl
    by (simp add: PQ lasts keys)
qed

lemma question_lists_error:
  "list_ex (\<lambda>x. snd x = []) (questions s) \<Longrightarrow> question_lists s = Inl IndexError"
  by (simp add: question_lists_def raw_questions_list_def Let_def)

lemma ranked_keys_distinct: "dict_ok (questions s) \<Longrightarrow> distinct (ranked_keys s)"
  by (simp add: ranked_keys_def sorted_reverse_keys)

lemma ranked_store_facts:
  "questions ranked_store = [(''a'', [0, 2]), (''b'', [3])]"
  "watched_questions ranked_store = []"
  "potential_score (heap ranked_store 0) = 7"
  "potential_score (heap ranked_store 2) = 1"
  "potential_score (heap ranked_store 3) = 5"
  by (simp_all add: ranked_store_def new_manager_def objects_def item_def update_questions_def
      update_question_history_def record_change_def save_data_def notify_listeners_def Let_def)

lemma watching_b_facts:
  "questions watching_b = [(''a'', [0, 2]), (''b'', [3])]"
  "watched_questions watching_b = [(''b'', 3)]"
  "heap watching_b = heap ranked_store"
  by (simp_all add: watching_b_def add_to_watched_def history_def ranked_store_facts
      save_data_def Let_def)

text \<open>
  Claim C4. With the keys of each dict distinct: \<open>get_question_list\<close> returns whenever no
  history in the store is empty, and whenever it returns, the identities of its output are
  the watched keys that have a history, in the order of the watch list, followed by the keys
  of the store that are not watched; no identity occurs twice, and the output holds the last
  history element of each.
\<close>

theorem watched_first:
  assumes "dict_ok (questions s)" and "dict_ok (watched_questions s)"
  shows "(\<not> list_ex (\<lambda>x. snd x = []) (questions s) \<longrightarrow>
            (\<exists>ql ids. question_lists s = Inr (ql, ids)))
       \<and> (\<forall>ql ids. question_lists s = Inr (ql, ids) \<longrightarrow>
            ids = with_history s (map fst (watched_questions s)) @
                  filter (\<lambda>k. k \<notin> fst ` set (watched_questions s)) (ranked_keys s)
          \<and> distinct ids
          \<and> ql = map (\<lambda>k. last (history s k)) ids
          \<and> get_question_list s = Inr ql)"
proof (cases "list_ex (\<lambda>x. snd x = []) (questions s)")
  case True
  then show ?thesis by (simp add: question_lists_error)
next
  case False
  let ?ids = "with_history s (map fst (watched_questions s)) @
      filter (\<lambda>k. k \<notin> fst ` set (watched_questions s)) (ranked_keys s)"
  have r: "question_lists s = Inr (map (\<lambda>k. last (history s k)) ?ids, ?ids)"
    by (rule question_lists_result[OF assms(1) False])
  have "distinct (with_history s (map fst (watched_questions s)))"
    using assms(2) by (simp add: dict_ok_def with_history_def)
  then have d: "distinct ?ids"
    using ranked_keys_distinct[OF assms(1)] by (auto simp: with_history_def)
  show ?thesis using False r d by (simp add: get_question_list_def)
qed

theorem watched_first_witness:
  "dict_ok (questions watching_b) \<and> dict_ok (watched_questions watching_b)
   \<and> \<not> list_ex (\<lambda>x. snd x = []) (questions watching_b)
   \<and> question_lists watching_b = Inr ([3, 2], [''b'', ''a''])
   \<and> get_question_list watching_b = Inr [3, 2]"
proof -
  note f = watching_b_facts ranked_store_facts
  have d: "dict_ok (questions watching_b)" "dict_ok (watched_questions watching_b)"
    by (simp_all add: dict_ok_def f)
  have ne: "\<not> list_ex (\<lambda>x. snd x = []) (questions watching_b)" by (simp add: f)
  obtain ql ids where r: "question_lists watching_b = Inr (ql, ids)"
    using watched_first[OF d] ne by blast
  have ids: "ids = [''b'', ''a'']" and ql: "ql = map (\<lambda>k. last (history watching_b k)) ids"
    and g: "get_question_list watching_b = Inr ql"
    using watched_first[OF d] r
    by (simp_all add: with_history_def ranked_keys_def sorted_reverse_def history_def f)
  have "ql = [3, 2]" unfolding ql ids by (simp add: history_def f)
  then show ?thesis using d ne r ids g by simp
qed

text \<open>
  Claim C2 at a store where it fails: the latest snapshot of \<open>a\<close> has score 1 and that of
  \<open>b\<close> has score 5, nothing is watched, and \<open>get_question_list\<close> puts \<open>a\<close> first, because
  the sort key is the score of the first history element, which is 7 for \<open>a\<close>.
\<close>

theorem ranking_by_oldest_score:
  "history ranked_store ''a'' = [0, 2] \<and> history ranked_store ''b'' = [3]
   \<and> watched_questions ranked_store = []
   \<and> potential_score (heap ranked_store (last (history ranked_store ''a''))) = 1
   \<and> potential_score (heap ranked_store (last (history ranked_store ''b''))) = 5
   \<and> get_question_list ranked_store = Inr [2, 3]"
  by (simp add: history_def ranked_store_facts get_question_list_def question_lists_def
      raw_questions_list_def sorted_reverse_def Let_def)

end
